theory Spec2Isabelle
  imports Main "HOL-Library.AList"
begin

section \<open>Ground truth: pages, key references, screens, frames, videos\<close>

text \<open>
  The model follows \<^verbatim>\<open>src/video699/video/annotated.py\<close>. A page is a value of an
  arbitrary type \<open>'p\<close> compared with HOL equality (Python's \<^verbatim>\<open>==\<close> on pages); the type
  \<open>'p option\<close> adds Python's \<^verbatim>\<open>None\<close>. Screen identifiers are values of an arbitrary
  type \<open>'i\<close>. Frame numbers are Python integers.
\<close>

datatype error = KeyError | AssertionError

text \<open>\<^verbatim>\<open>_KeyRefAnnotations\<close>: a page key and a similarity string.\<close>

record KeyRefAnnotations =
  key :: string
  similarity :: string

text \<open>
  \<^verbatim>\<open>AnnotatedSampledVideoScreen\<close> together with its \<^verbatim>\<open>_ScreenAnnotations\<close>: the
  condition string, the \<^verbatim>\<open>keyrefs\<close> dictionary in insertion order, and the geometric
  predicate \<^verbatim>\<open>is_beyond_bounds\<close> of the screen's coordinates, which is opaque here.
\<close>

record AnnotatedSampledVideoScreen =
  condition :: string
  keyrefs :: "(string \<times> KeyRefAnnotations) list"
  is_beyond_bounds :: bool

text \<open>
  \<^verbatim>\<open>AnnotatedSampledVideoFrame\<close>: the frame number and the list
  \<^verbatim>\<open>SCREENS[uri][number]\<close> of its screens.
\<close>

record AnnotatedSampledVideoFrame =
  number :: int
  screens :: "AnnotatedSampledVideoScreen list"

text \<open>
  \<^verbatim>\<open>AnnotatedSampledVideo\<close>: the list \<^verbatim>\<open>_frames\<close> and the video-wide page index
  \<^verbatim>\<open>PAGES[uri]\<close>. The other attributes of a video (URI, date and time, frame rate,
  dimensions, documents) are the extension of the record; the functions below are defined
  for every extension.
\<close>

record 'p AnnotatedSampledVideo =
  frames :: "AnnotatedSampledVideoFrame list"
  pages :: "string \<rightharpoonup> 'p"

section \<open>Matching pages of a screen\<close>

text \<open>
  A list comprehension \<^verbatim>\<open>[pages[k] for k in ks]\<close>: the first key that is absent from
  the dictionary raises \<^verbatim>\<open>KeyError\<close>.
\<close>

fun lookup_pages :: "(string \<rightharpoonup> 'p) \<Rightarrow> string list \<Rightarrow> error + 'p list" where
  "lookup_pages pgs [] = Inr []"
| "lookup_pages pgs (k # ks) =
     (case pgs k of
        None \<Rightarrow> Inl KeyError
      | Some p \<Rightarrow> (case lookup_pages pgs ks of Inl e \<Rightarrow> Inl e | Inr ps \<Rightarrow> Inr (p # ps)))"

definition keys_with :: "string \<Rightarrow> AnnotatedSampledVideoScreen \<Rightarrow> string list" where
  "keys_with sim s = map key (filter (\<lambda>keyref. similarity keyref = sim) (map snd (keyrefs s)))"

definition matching_pages ::
  "(string \<rightharpoonup> 'p) \<Rightarrow> AnnotatedSampledVideoScreen \<Rightarrow> error + ('p list \<times> 'p list \<times> 'p list)" where
  "matching_pages pgs s =
     (case lookup_pages pgs (keys_with ''full'' s) of
        Inl e \<Rightarrow> Inl e
      | Inr full_matches \<Rightarrow>
          (case lookup_pages pgs (keys_with ''incremental'' s) of
             Inl e \<Rightarrow> Inl e
           | Inr incremental_matches \<Rightarrow>
               Inr (full_matches, incremental_matches,
                    if full_matches \<noteq> [] then full_matches else incremental_matches)))"

section \<open>The screen detector\<close>

text \<open>\<^verbatim>\<open>AnnotatedSampledVideoScreenDetector(conditions, beyond_bounds).detect(frame)\<close>.\<close>

definition detect ::
  "string set \<Rightarrow> bool \<Rightarrow> AnnotatedSampledVideoFrame \<Rightarrow> AnnotatedSampledVideoScreen list" where
  "detect conditions beyond_bounds frame =
     filter (\<lambda>s. condition s \<in> conditions \<and> (beyond_bounds \<or> \<not> is_beyond_bounds s))
       (screens frame)"

definition pristine_screen_detector ::
  "AnnotatedSampledVideoFrame \<Rightarrow> AnnotatedSampledVideoScreen list" where
  "pristine_screen_detector = detect {''pristine''} True"

definition nonpristine_screen_detector ::
  "AnnotatedSampledVideoFrame \<Rightarrow> AnnotatedSampledVideoScreen list" where
  "nonpristine_screen_detector = detect {''windowed'', ''obstacle''} True"

section \<open>Detector events and the belief state\<close>

text \<open>
  Modelled from the spec: the event classes of \<^verbatim>\<open>video699.event.screen\<close> are imported
  by the source but are not part of it. An event is one of three variants, anchored at the
  number of its frame; appearance and content-change events carry a page that may be
  \<^verbatim>\<open>None\<close>.
\<close>

datatype ('i, 'p) event =
    ScreenAppearedEvent int 'i "'p option"
  | ScreenChangedContentEvent int 'i "'p option"
  | ScreenDisappearedEvent int 'i

fun frame_number :: "('i, 'p) event \<Rightarrow> int" where
  "frame_number (ScreenAppearedEvent n sid pg) = n"
| "frame_number (ScreenChangedContentEvent n sid pg) = n"
| "frame_number (ScreenDisappearedEvent n sid) = n"

fun screen_id :: "('i, 'p) event \<Rightarrow> 'i" where
  "screen_id (ScreenAppearedEvent n sid pg) = sid"
| "screen_id (ScreenChangedContentEvent n sid pg) = sid"
| "screen_id (ScreenDisappearedEvent n sid) = sid"

text \<open>
  \<^verbatim>\<open>detected_page_dict\<close> is a Python dictionary: an association list with distinct keys in
  insertion order. The update after the frame loop (lines 987 to 990): an assignment
  overwrites or appends, \<^verbatim>\<open>del\<close> raises \<^verbatim>\<open>KeyError\<close> on an absent key, and the final
  \<^verbatim>\<open>None\<close> event changes nothing.
\<close>

type_synonym ('i, 'p) page_dict = "('i \<times> 'p option) list"

fun apply_event :: "('i, 'p) event option \<Rightarrow> ('i, 'p) page_dict \<Rightarrow> error + ('i, 'p) page_dict" where
  "apply_event None d = Inr d"
| "apply_event (Some (ScreenAppearedEvent n sid pg)) d = Inr (AList.update sid pg d)"
| "apply_event (Some (ScreenChangedContentEvent n sid pg)) d = Inr (AList.update sid pg d)"
| "apply_event (Some (ScreenDisappearedEvent n sid)) d =
     (if sid \<in> fst ` set d then Inr (AList.delete sid d) else Inl KeyError)"

section \<open>One trial\<close>

text \<open>\<^verbatim>\<open>set(detected_page_dict.values())\<close>: every value of the dictionary, \<^verbatim>\<open>None\<close> included.\<close>

definition detected_pages_of :: "('i, 'p) page_dict \<Rightarrow> 'p option set" where
  "detected_pages_of d = set (map snd d)"

text \<open>
  The loop over the pristine screens (lines 959 to 964), with the flag
  \<^verbatim>\<open>detected_pages_match_every_screen\<close> and the set \<^verbatim>\<open>pristine_matching_pages\<close> as
  accumulators.
\<close>

fun screens_loop ::
  "(string \<rightharpoonup> 'p) \<Rightarrow> 'p option set \<Rightarrow> AnnotatedSampledVideoScreen list \<Rightarrow>
   bool \<times> 'p option set \<Rightarrow> error + (bool \<times> 'p option set)" where
  "screens_loop pgs detected_pages [] acc = Inr acc"
| "screens_loop pgs detected_pages (s # ss) (every, pristine_matching_pages) =
     (case matching_pages pgs s of
        Inl e \<Rightarrow> Inl e
      | Inr (full_matches, incremental_matches, closest) \<Rightarrow>
          (let closest_matches = Some ` set closest in
           screens_loop pgs detected_pages ss
             (if closest_matches \<noteq> {} \<and> detected_pages \<inter> closest_matches = {}
              then False else every,
              pristine_matching_pages \<union> closest_matches)))"

text \<open>The body of the frame loop from line 954 to the test of line 967.\<close>

definition trial ::
  "(string \<rightharpoonup> 'p) \<Rightarrow> ('i, 'p) page_dict \<Rightarrow> AnnotatedSampledVideoFrame \<Rightarrow> error + bool" where
  "trial pgs d frame =
     (let detected_pages = detected_pages_of d;
          pristine_screens = pristine_screen_detector frame;
          nonpristine_screens = nonpristine_screen_detector frame
      in case screens_loop pgs detected_pages pristine_screens (True, {}) of
           Inl e \<Rightarrow> Inl e
         | Inr (detected_pages_match_every_screen, pristine_matching_pages) \<Rightarrow>
             (let detected_nonmatching_pages = detected_pages - pristine_matching_pages
              in Inr (detected_pages_match_every_screen
                      \<and> card detected_nonmatching_pages \<le> length nonpristine_screens)))"

section \<open>The evaluation run\<close>

text \<open>
  The run is instrumented with a history of what it did: one entry per trial (the frame,
  the dictionary the trial read, the outcome that is logged, the success counter after the
  trial) and one entry per element of \<^verbatim>\<open>chain(event_detector, (None,))\<close> whose update
  has been executed (the element and the dictionary after the update).
\<close>

datatype ('i, 'p) step =
    Trial AnnotatedSampledVideoFrame "('i, 'p) page_dict" bool nat
  | Applied "('i, 'p) event option" "('i, 'p) page_dict"

record ('i, 'p) state =
  peeked_remaining_annotated_frames :: "AnnotatedSampledVideoFrame list"
  remaining_annotated_frames :: "AnnotatedSampledVideoFrame list"
  num_successes :: nat
  detected_page_dict :: "('i, 'p) page_dict"
  history :: "('i, 'p) step list"

text \<open>The test of line 950.\<close>

fun deferred :: "('i, 'p) event option \<Rightarrow> AnnotatedSampledVideoFrame \<Rightarrow> bool" where
  "deferred None frame = False"
| "deferred (Some event) frame = (number frame \<ge> frame_number event)"

text \<open>
  The inner loop over \<^verbatim>\<open>chain(peeked_remaining_annotated_frames,
  remaining_annotated_frames)\<close>, given as one list. On \<^verbatim>\<open>break\<close> the frame is put back
  into a fresh one-element generator and the rest stays in the frame iterator; when the
  chain runs out both are exhausted. The assertion of line 975 is a branch of its own.
\<close>

fun frames_loop ::
  "(string \<rightharpoonup> 'p) \<Rightarrow> nat \<Rightarrow> ('i, 'p) event option \<Rightarrow> AnnotatedSampledVideoFrame list \<Rightarrow>
   ('i, 'p) state \<Rightarrow> error + ('i, 'p) state" where
  "frames_loop pgs num_trials event [] st =
     Inr (st\<lparr>peeked_remaining_annotated_frames := [], remaining_annotated_frames := []\<rparr>)"
| "frames_loop pgs num_trials event (frame # rest) st =
     (if deferred event frame
      then Inr (st\<lparr>peeked_remaining_annotated_frames := [frame],
                   remaining_annotated_frames := rest\<rparr>)
      else (case trial pgs (detected_page_dict st) frame of
              Inl e \<Rightarrow> Inl e
            | Inr success \<Rightarrow>
                if success
                then (if Suc (num_successes st) \<le> num_trials
                      then frames_loop pgs num_trials event rest
                             (st\<lparr>num_successes := Suc (num_successes st),
                                 history := history st @
                                   [Trial frame (detected_page_dict st) True
                                      (Suc (num_successes st))]\<rparr>)
                      else Inl AssertionError)
                else frames_loop pgs num_trials event rest
                       (st\<lparr>history := history st @
                             [Trial frame (detected_page_dict st) False (num_successes st)]\<rparr>)))"

text \<open>The outer loop over \<^verbatim>\<open>chain(event_detector, (None,))\<close>.\<close>

fun events_loop ::
  "(string \<rightharpoonup> 'p) \<Rightarrow> nat \<Rightarrow> ('i, 'p) event option list \<Rightarrow> ('i, 'p) state \<Rightarrow>
   error + ('i, 'p) state" where
  "events_loop pgs num_trials [] st = Inr st"
| "events_loop pgs num_trials (event # events) st =
     (case frames_loop pgs num_trials event
             (peeked_remaining_annotated_frames st @ remaining_annotated_frames st) st of
        Inl e \<Rightarrow> Inl e
      | Inr st1 \<Rightarrow>
          (case apply_event event (detected_page_dict st1) of
             Inl e \<Rightarrow> Inl e
           | Inr d \<Rightarrow>
               events_loop pgs num_trials events
                 (st1\<lparr>detected_page_dict := d,
                      history := history st1 @ [Applied event d]\<rparr>)))"

definition initial_state :: "('p, 'z) AnnotatedSampledVideo_scheme \<Rightarrow> ('i, 'p) state" where
  "initial_state annotated_video =
     \<lparr>peeked_remaining_annotated_frames = [],
      remaining_annotated_frames = frames annotated_video,
      num_successes = 0,
      detected_page_dict = [],
      history = []\<rparr>"

definition run ::
  "('p, 'z) AnnotatedSampledVideo_scheme \<Rightarrow> ('i, 'p) event list \<Rightarrow> error + ('i, 'p) state" where
  "run annotated_video event_detector =
     events_loop (pages annotated_video) (length (frames annotated_video))
       (map Some event_detector @ [None]) (initial_state annotated_video)"

definition evaluate_event_detector ::
  "('p, 'z) AnnotatedSampledVideo_scheme \<Rightarrow> ('i, 'p) event list \<Rightarrow> error + (nat \<times> nat)" where
  "evaluate_event_detector annotated_video event_detector =
     (case run annotated_video event_detector of
        Inl e \<Rightarrow> Inl e
      | Inr st \<Rightarrow> Inr (num_successes st, length (frames annotated_video)))"

section \<open>Reading the history\<close>

text \<open>The frames that were trialed, the success counter after each trial, and the elements
  of the event chain whose update was executed, each in the order of the run.\<close>

fun trialed_frames :: "('i, 'p) step list \<Rightarrow> AnnotatedSampledVideoFrame list" where
  "trialed_frames [] = []"
| "trialed_frames (Trial f d b n # xs) = f # trialed_frames xs"
| "trialed_frames (Applied e d # xs) = trialed_frames xs"

fun successes_after :: "('i, 'p) step list \<Rightarrow> nat list" where
  "successes_after [] = []"
| "successes_after (Trial f d b n # xs) = n # successes_after xs"
| "successes_after (Applied e d # xs) = successes_after xs"

fun applied_events :: "('i, 'p) step list \<Rightarrow> ('i, 'p) event option list" where
  "applied_events [] = []"
| "applied_events (Trial f d b n # xs) = applied_events xs"
| "applied_events (Applied e d # xs) = e # applied_events xs"

section \<open>The properties that the specification states\<close>

text \<open>
  The set of pages that a screen matches the closest: the third component of
  \<^verbatim>\<open>matching_pages\<close> as a set.
\<close>

definition closest_matches_of :: "(string \<rightharpoonup> 'p) \<Rightarrow> AnnotatedSampledVideoScreen \<Rightarrow> 'p set" where
  "closest_matches_of pgs s =
     (case matching_pages pgs s of Inl e \<Rightarrow> {} | Inr (full, inc, closest) \<Rightarrow> set closest)"

text \<open>The distinct values of the belief state that are not \<^verbatim>\<open>None\<close>.\<close>

definition nonnull_pages_of :: "('i, 'p) page_dict \<Rightarrow> 'p option set" where
  "nonnull_pages_of d = set (filter (\<lambda>v. v \<noteq> None) (map snd d))"

text \<open>
  The success condition for a given set of detected pages: every pristine screen of the
  frame with a non-empty closest-match set shares a page with the detected pages, and the
  detected pages outside the union of the pristine closest-match sets are at most as many
  as the windowed and obstacle screens of the frame.
\<close>

definition succeeds_with ::
  "'p option set \<Rightarrow> (string \<rightharpoonup> 'p) \<Rightarrow> AnnotatedSampledVideoFrame \<Rightarrow> bool" where
  "succeeds_with detected pgs frame \<longleftrightarrow>
     (\<forall>s\<in>set (screens frame). condition s = ''pristine'' \<longrightarrow> closest_matches_of pgs s \<noteq> {} \<longrightarrow>
        detected \<inter> Some ` closest_matches_of pgs s \<noteq> {})
     \<and> card (detected
              - Some ` (\<Union>s\<in>{s \<in> set (screens frame). condition s = ''pristine''}.
                          closest_matches_of pgs s))
         \<le> length (filter (\<lambda>s. condition s = ''windowed'' \<or> condition s = ''obstacle'')
                     (screens frame))"

text \<open>
  The success condition in the words of the specification, whose detected pages are the
  distinct pages among the values of the belief state that are not \<^verbatim>\<open>None\<close>.
\<close>

definition claimed_success ::
  "(string \<rightharpoonup> 'p) \<Rightarrow> ('i, 'p) page_dict \<Rightarrow> AnnotatedSampledVideoFrame \<Rightarrow> bool" where
  "claimed_success pgs d frame = succeeds_with (nonnull_pages_of d) pgs frame"

text \<open>
  The same condition with every value of the belief state as a detected page, a stored
  \<^verbatim>\<open>None\<close> included.
\<close>

definition trial_succeeds ::
  "(string \<rightharpoonup> 'p) \<Rightarrow> ('i, 'p) page_dict \<Rightarrow> AnnotatedSampledVideoFrame \<Rightarrow> bool" where
  "trial_succeeds pgs d frame = succeeds_with (snd ` set d) pgs frame"

text \<open>
  Consistency of the dataset for a frame: every key that a pristine screen references as a
  full or incremental match is in the page index of the video.
\<close>

definition keyrefs_resolve :: "(string \<rightharpoonup> 'p) \<Rightarrow> AnnotatedSampledVideoFrame \<Rightarrow> bool" where
  "keyrefs_resolve pgs frame \<longleftrightarrow>
     (\<forall>s\<in>set (screens frame). condition s = ''pristine'' \<longrightarrow>
        set (keys_with ''full'' s) \<union> set (keys_with ''incremental'' s) \<subseteq> dom pgs)"

text \<open>
  An event stream in which every disappearance names a screen that an earlier event made
  appear or change and that has not disappeared since, starting from the tracked set.
\<close>

fun well_tracked :: "'i set \<Rightarrow> ('i, 'p) event list \<Rightarrow> bool" where
  "well_tracked tracked [] = True"
| "well_tracked tracked (ScreenAppearedEvent n sid pg # es) = well_tracked (insert sid tracked) es"
| "well_tracked tracked (ScreenChangedContentEvent n sid pg # es) =
     well_tracked (insert sid tracked) es"
| "well_tracked tracked (ScreenDisappearedEvent n sid # es) =
     (sid \<in> tracked \<and> well_tracked (tracked - {sid}) es)"

section \<open>A small video\<close>

text \<open>
  Two frames: the first has one pristine screen with a full match \<open>P1\<close> and an
  incremental match \<open>P2\<close>, the second has no screen. The detector reports the screen with
  page \<open>P1\<close> at frame 1 and its disappearance at frame 2.
\<close>

definition example_screen :: AnnotatedSampledVideoScreen where
  "example_screen =
     \<lparr>condition = ''pristine'',
      keyrefs = [(''k1'', \<lparr>key = ''k1'', similarity = ''full''\<rparr>),
                 (''k2'', \<lparr>key = ''k2'', similarity = ''incremental''\<rparr>)],
      is_beyond_bounds = False\<rparr>"

definition example_pages :: "string \<rightharpoonup> string" where
  "example_pages = [''k1'' \<mapsto> ''P1'', ''k2'' \<mapsto> ''P2'']"

definition frame1 :: AnnotatedSampledVideoFrame where
  "frame1 = \<lparr>number = 1, screens = [example_screen]\<rparr>"

definition frame2 :: AnnotatedSampledVideoFrame where
  "frame2 = \<lparr>number = 2, screens = []\<rparr>"

definition example_video :: "string AnnotatedSampledVideo" where
  "example_video = \<lparr>frames = [frame1, frame2], pages = example_pages\<rparr>"

definition example_events :: "(nat, string) event list" where
  "example_events = [ScreenAppearedEvent 1 0 (Some ''P1''), ScreenDisappearedEvent 2 0]"

text \<open>The state in which the run over the small video ends.\<close>

definition example_final :: "(nat, string) state" where
  "example_final =
     \<lparr>peeked_remaining_annotated_frames = [],
      remaining_annotated_frames = [],
      num_successes = 2,
      detected_page_dict = [],
      history =
        [Applied (Some (ScreenAppearedEvent 1 0 (Some ''P1''))) [(0, Some ''P1'')],
         Trial frame1 [(0, Some ''P1'')] True 1,
         Applied (Some (ScreenDisappearedEvent 2 0)) [],
         Trial frame2 [] True 2,
         Applied None []]\<rparr>"

text \<open>
  A video with the second frame only, and a detector that reports a screen with a
  \<^verbatim>\<open>None\<close> page before it; the state in which this run ends.
\<close>

definition null_video :: "string AnnotatedSampledVideo" where
  "null_video = \<lparr>frames = [frame2], pages = example_pages\<rparr>"

definition null_events :: "(nat, string) event list" where
  "null_events = [ScreenAppearedEvent 1 0 None]"

definition null_final :: "(nat, string) state" where
  "null_final =
     \<lparr>peeked_remaining_annotated_frames = [],
      remaining_annotated_frames = [],
      num_successes = 0,
      detected_page_dict = [(0, None)],
      history =
        [Applied (Some (ScreenAppearedEvent 1 0 None)) [(0, None)],
         Trial frame2 [(0, None)] False 0,
         Applied None [(0, None)]]\<rparr>"

section \<open>Lemmas about the loops\<close>

subsection \<open>Matching pages and the frame loop\<close>

lemma lookup_pages_eq:
  "lookup_pages pgs ks =
     (if set ks \<subseteq> dom pgs then Inr (map (\<lambda>k. the (pgs k)) ks) else Inl KeyError)"
  by (induction ks) (auto split: option.splits)

lemma matching_pages_eq:
  "matching_pages pgs s =
     (if set (keys_with ''full'' s) \<union> set (keys_with ''incremental'' s) \<subseteq> dom pgs
      then Inr (map (\<lambda>k. the (pgs k)) (keys_with ''full'' s),
                map (\<lambda>k. the (pgs k)) (keys_with ''incremental'' s),
                if keys_with ''full'' s \<noteq> [] then map (\<lambda>k. the (pgs k)) (keys_with ''full'' s)
                else map (\<lambda>k. the (pgs k)) (keys_with ''incremental'' s))
      else Inl KeyError)"
  by (simp add: matching_pages_def lookup_pages_eq)

lemma frames_loop_dict:
  "frames_loop pgs nt ev chain st = Inr st' \<Longrightarrow> detected_page_dict st' = detected_page_dict st"
  by (induction chain arbitrary: st) (auto split: sum.splits if_splits)

lemma trialed_frames_append: "trialed_frames (xs @ ys) = trialed_frames xs @ trialed_frames ys"
  by (induction xs rule: trialed_frames.induct) auto

lemma successes_after_append: "successes_after (xs @ ys) = successes_after xs @ successes_after ys"
  by (induction xs rule: successes_after.induct) auto

lemma applied_events_append: "applied_events (xs @ ys) = applied_events xs @ applied_events ys"
  by (induction xs rule: applied_events.induct) auto

lemma frames_loop_history:
  "frames_loop pgs nt ev chain st = Inr st' \<Longrightarrow>
   \<exists>new. history st' = history st @ new
     \<and> trialed_frames new @ peeked_remaining_annotated_frames st' @ remaining_annotated_frames st'
         = chain
     \<and> (\<forall>s\<in>set new. \<exists>f b n. s = Trial f (detected_page_dict st) b n
             \<and> trial pgs (detected_page_dict st) f = Inr b \<and> \<not> deferred ev f)"
proof (induction chain arbitrary: st)
  case Nil
  then show ?case by auto
next
  case (Cons f fs)
  show ?case
  proof (cases "deferred ev f")
    case True
    with Cons.prems show ?thesis by auto
  next
    case False
    from Cons.prems False obtain b where b: "trial pgs (detected_page_dict st) f = Inr b"
      by (auto split: sum.splits)
    define st1 where "st1 = (if b then st\<lparr>num_successes := Suc (num_successes st),
        history := history st @ [Trial f (detected_page_dict st) True (Suc (num_successes st))]\<rparr>
       else st\<lparr>history := history st @ [Trial f (detected_page_dict st) False (num_successes st)]\<rparr>)"
    from Cons.prems False b have run: "frames_loop pgs nt ev fs st1 = Inr st'"
      by (auto simp: st1_def split: if_splits)
    have d1: "detected_page_dict st1 = detected_page_dict st" by (simp add: st1_def)
    from Cons.IH[OF run] obtain new where
      IH: "history st' = history st1 @ new"
        "trialed_frames new @ peeked_remaining_annotated_frames st' @ remaining_annotated_frames st' = fs"
        "\<forall>s\<in>set new. \<exists>f b n. s = Trial f (detected_page_dict st) b n
             \<and> trial pgs (detected_page_dict st) f = Inr b \<and> \<not> deferred ev f"
      unfolding d1 by blast
    obtain n where h1: "history st1 = history st @ [Trial f (detected_page_dict st) b n]"
      by (cases b) (auto simp: st1_def)
    show ?thesis
      apply (rule exI[of _ "Trial f (detected_page_dict st) b n # new"])
      using IH h1 b False by auto
  qed
qed

lemma frames_loop_peeked:
  "frames_loop pgs nt ev chain st = Inr st' \<Longrightarrow>
   (peeked_remaining_annotated_frames st' = [] \<and> remaining_annotated_frames st' = [])
   \<or> (\<exists>f. peeked_remaining_annotated_frames st' = [f] \<and> deferred ev f)"
  by (induction chain arbitrary: st) (auto split: sum.splits if_splits)

lemma frames_loop_counts:
  "frames_loop pgs nt ev chain st = Inr st' \<Longrightarrow>
   num_successes st \<le> num_successes st' \<and>
   num_successes st' + length (peeked_remaining_annotated_frames st' @ remaining_annotated_frames st')
     \<le> num_successes st + length chain"
proof (induction chain arbitrary: st)
  case Nil
  then show ?case by auto
next
  case (Cons f fs)
  then show ?case
    by (fastforce split: sum.splits if_splits)
qed

lemma frames_loop_sorted:
  "frames_loop pgs nt ev chain st = Inr st' \<Longrightarrow>
   sorted (successes_after (history st) @ [num_successes st]) \<Longrightarrow>
   sorted (successes_after (history st') @ [num_successes st'])"
proof (induction chain arbitrary: st)
  case Nil
  then show ?case by auto
next
  case (Cons f fs)
  show ?case
  proof (cases "deferred ev f")
    case True
    with Cons.prems show ?thesis by auto
  next
    case False
    from Cons.prems False obtain b where b: "trial pgs (detected_page_dict st) f = Inr b"
      by (auto split: sum.splits)
    show ?thesis
    proof (cases b)
      case True
      let ?st1 = "st\<lparr>num_successes := Suc (num_successes st),
        history := history st @ [Trial f (detected_page_dict st) True (Suc (num_successes st))]\<rparr>"
      from Cons.prems(1) False b True have run: "frames_loop pgs nt ev fs ?st1 = Inr st'"
        by (auto split: if_splits)
      from Cons.prems(2) have "sorted (successes_after (history ?st1) @ [num_successes ?st1])"
        by (auto simp: successes_after_append sorted_append)
      from Cons.IH[OF run this] show ?thesis .
    next
      case F: False
      let ?st1 = "st\<lparr>history := history st @ [Trial f (detected_page_dict st) False (num_successes st)]\<rparr>"
      from Cons.prems(1) False b F have run: "frames_loop pgs nt ev fs ?st1 = Inr st'"
        by (auto split: if_splits)
      from Cons.prems(2) have "sorted (successes_after (history ?st1) @ [num_successes ?st1])"
        by (auto simp: successes_after_append sorted_append)
      from Cons.IH[OF run this] show ?thesis .
    qed
  qed
qed

lemma screens_loop_error:
  "screens_loop pgs det ss acc = Inl e \<Longrightarrow> e = KeyError"
proof (induction ss arbitrary: acc)
  case Nil
  then show ?case by simp
next
  case (Cons s ss)
  obtain ev pm where acc: "acc = (ev, pm)" by (cases acc)
  from Cons.prems show ?case unfolding acc
    by (auto simp: matching_pages_eq Let_def split: if_splits dest: Cons.IH)
qed

lemma trial_error: "trial pgs d f = Inl e \<Longrightarrow> e = KeyError"
  by (auto simp: trial_def Let_def split: sum.splits prod.splits dest: screens_loop_error)

lemma frames_loop_error:
  "frames_loop pgs nt ev chain st = Inl e \<Longrightarrow> num_successes st + length chain \<le> nt \<Longrightarrow> e = KeyError"
proof (induction chain arbitrary: st)
  case Nil
  then show ?case by simp
next
  case (Cons f fs)
  show ?case
  proof (cases "trial pgs (detected_page_dict st) f")
    case (Inl e')
    with Cons.prems show ?thesis by (auto split: if_splits dest: trial_error)
  next
    case (Inr b)
    with Cons.prems show ?thesis
      by (cases b) (auto split: if_splits dest!: Cons.IH)
  qed
qed

lemma apply_event_error: "apply_event ev d = Inl e \<Longrightarrow> e = KeyError"
  by (cases "(ev, d)" rule: apply_event.cases) (auto split: if_splits)

subsection \<open>The event loop\<close>

lemma events_loop_append:
  "events_loop pgs nt (xs @ ys) st =
     (case events_loop pgs nt xs st of Inl e \<Rightarrow> Inl e | Inr st1 \<Rightarrow> events_loop pgs nt ys st1)"
  by (induction xs arbitrary: st) (auto split: sum.splits)

lemma frames_loop_trials:
  assumes "frames_loop pgs nt ev chain st = Inr st'"
    and "\<forall>f d b n. Trial f d b n \<in> set (history st) \<longrightarrow> P f d b"
    and "\<And>f b. trial pgs (detected_page_dict st) f = Inr b \<Longrightarrow> P f (detected_page_dict st) b"
  shows "\<forall>f d b n. Trial f d b n \<in> set (history st') \<longrightarrow> P f d b"
proof -
  from frames_loop_history[OF assms(1)] obtain new where
    h: "history st' = history st @ new"
    and n: "\<forall>s\<in>set new. \<exists>f b n. s = Trial f (detected_page_dict st) b n
             \<and> trial pgs (detected_page_dict st) f = Inr b \<and> \<not> deferred ev f"
    by blast
  show ?thesis
  proof (intro allI impI)
    fix f d b m assume "Trial f d b m \<in> set (history st')"
    then consider "Trial f d b m \<in> set (history st)" | "Trial f d b m \<in> set new"
      unfolding h by auto
    then show "P f d b"
    proof cases
      case 1
      with assms(2) show ?thesis by blast
    next
      case 2
      with n have "d = detected_page_dict st \<and> trial pgs (detected_page_dict st) f = Inr b"
        by fastforce
      with assms(3) show ?thesis by blast
    qed
  qed
qed

lemma apply_event_distinct:
  "apply_event ev d = Inr d' \<Longrightarrow> distinct (map fst d) \<Longrightarrow> distinct (map fst d')"
  by (cases "(ev, d)" rule: apply_event.cases)
     (auto simp: distinct_update distinct_delete split: if_splits)

lemma events_loop_trials:
  assumes "events_loop pgs nt evs st = Inr st'"
    and "\<forall>f d b n. Trial f d b n \<in> set (history st) \<longrightarrow> trial pgs d f = Inr b \<and> distinct (map fst d)"
    and "distinct (map fst (detected_page_dict st))"
  shows "(\<forall>f d b n. Trial f d b n \<in> set (history st') \<longrightarrow> trial pgs d f = Inr b \<and> distinct (map fst d))
         \<and> distinct (map fst (detected_page_dict st'))"
  using assms
proof (induction evs arbitrary: st)
  case Nil
  then show ?case by simp
next
  case (Cons ev evs)
  from Cons.prems(1) obtain st1 d where
    fl: "frames_loop pgs nt ev
           (peeked_remaining_annotated_frames st @ remaining_annotated_frames st) st = Inr st1"
    and ap: "apply_event ev (detected_page_dict st1) = Inr d"
    and rest: "events_loop pgs nt evs
                 (st1\<lparr>detected_page_dict := d, history := history st1 @ [Applied ev d]\<rparr>) = Inr st'"
    by (auto split: sum.splits)
  have t1: "\<forall>f d b n. Trial f d b n \<in> set (history st1)
              \<longrightarrow> trial pgs d f = Inr b \<and> distinct (map fst d)"
    by (rule frames_loop_trials[OF fl Cons.prems(2)]) (simp add: Cons.prems(3))
  have d1: "distinct (map fst (detected_page_dict st1))"
    using frames_loop_dict[OF fl] Cons.prems(3) by simp
  show ?case
    by (rule Cons.IH[OF rest]) (use t1 d1 apply_event_distinct[OF ap] in auto)
qed

lemma events_loop_frames:
  "events_loop pgs nt evs st = Inr st' \<Longrightarrow>
   trialed_frames (history st') @ peeked_remaining_annotated_frames st'
       @ remaining_annotated_frames st'
   = trialed_frames (history st) @ peeked_remaining_annotated_frames st
       @ remaining_annotated_frames st"
proof (induction evs arbitrary: st)
  case Nil
  then show ?case by simp
next
  case (Cons ev evs)
  from Cons.prems(1) obtain st1 d where
    fl: "frames_loop pgs nt ev
           (peeked_remaining_annotated_frames st @ remaining_annotated_frames st) st = Inr st1"
    and rest: "events_loop pgs nt evs
                 (st1\<lparr>detected_page_dict := d, history := history st1 @ [Applied ev d]\<rparr>) = Inr st'"
    by (auto split: sum.splits)
  from frames_loop_history[OF fl] have
    "trialed_frames (history st1) @ peeked_remaining_annotated_frames st1
       @ remaining_annotated_frames st1
     = trialed_frames (history st) @ peeked_remaining_annotated_frames st
       @ remaining_annotated_frames st"
    by (auto simp: trialed_frames_append)
  with Cons.IH[OF rest] show ?case by (simp add: trialed_frames_append)
qed

lemma events_loop_applied:
  "events_loop pgs nt evs st = Inr st' \<Longrightarrow>
   applied_events (history st') = applied_events (history st) @ evs"
proof (induction evs arbitrary: st)
  case Nil
  then show ?case by simp
next
  case (Cons ev evs)
  from Cons.prems(1) obtain st1 d where
    fl: "frames_loop pgs nt ev
           (peeked_remaining_annotated_frames st @ remaining_annotated_frames st) st = Inr st1"
    and rest: "events_loop pgs nt evs
                 (st1\<lparr>detected_page_dict := d, history := history st1 @ [Applied ev d]\<rparr>) = Inr st'"
    by (auto split: sum.splits)
  from frames_loop_history[OF fl] obtain new where
    h: "history st1 = history st @ new" and
    n: "\<forall>s\<in>set new. \<exists>f b n. s = Trial f (detected_page_dict st) b n
             \<and> trial pgs (detected_page_dict st) f = Inr b \<and> \<not> deferred ev f" by blast
  from n have "applied_events new = []"
    by (induction new) auto
  with h Cons.IH[OF rest] show ?case by (simp add: applied_events_append)
qed

lemma events_loop_counts:
  "events_loop pgs nt evs st = Inr st' \<Longrightarrow>
   num_successes st \<le> num_successes st' \<and>
   num_successes st' + length (peeked_remaining_annotated_frames st' @ remaining_annotated_frames st')
     \<le> num_successes st
        + length (peeked_remaining_annotated_frames st @ remaining_annotated_frames st)"
proof (induction evs arbitrary: st)
  case Nil
  then show ?case by simp
next
  case (Cons ev evs)
  from Cons.prems(1) obtain st1 d where
    fl: "frames_loop pgs nt ev
           (peeked_remaining_annotated_frames st @ remaining_annotated_frames st) st = Inr st1"
    and rest: "events_loop pgs nt evs
                 (st1\<lparr>detected_page_dict := d, history := history st1 @ [Applied ev d]\<rparr>) = Inr st'"
    by (auto split: sum.splits)
  from frames_loop_counts[OF fl] Cons.IH[OF rest] show ?case by simp
qed

lemma events_loop_sorted:
  "events_loop pgs nt evs st = Inr st' \<Longrightarrow>
   sorted (successes_after (history st) @ [num_successes st]) \<Longrightarrow>
   sorted (successes_after (history st') @ [num_successes st'])"
proof (induction evs arbitrary: st)
  case Nil
  then show ?case by simp
next
  case (Cons ev evs)
  from Cons.prems(1) obtain st1 d where
    fl: "frames_loop pgs nt ev
           (peeked_remaining_annotated_frames st @ remaining_annotated_frames st) st = Inr st1"
    and rest: "events_loop pgs nt evs
                 (st1\<lparr>detected_page_dict := d, history := history st1 @ [Applied ev d]\<rparr>) = Inr st'"
    by (auto split: sum.splits)
  from frames_loop_sorted[OF fl Cons.prems(2)]
  have "sorted (successes_after (history (st1\<lparr>detected_page_dict := d,
          history := history st1 @ [Applied ev d]\<rparr>))
        @ [num_successes (st1\<lparr>detected_page_dict := d, history := history st1 @ [Applied ev d]\<rparr>)])"
    by (simp add: successes_after_append)
  from Cons.IH[OF rest this] show ?case .
qed

lemma events_loop_error:
  "events_loop pgs nt evs st = Inl e \<Longrightarrow>
   num_successes st
     + length (peeked_remaining_annotated_frames st @ remaining_annotated_frames st) \<le> nt \<Longrightarrow>
   e = KeyError"
proof (induction evs arbitrary: st)
  case Nil
  then show ?case by simp
next
  case (Cons ev evs)
  let ?chain = "peeked_remaining_annotated_frames st @ remaining_annotated_frames st"
  show ?case
  proof (cases "frames_loop pgs nt ev ?chain st")
    case (Inl e')
    with Cons.prems show ?thesis by (auto dest: frames_loop_error)
  next
    case (Inr st1)
    note fl = this
    show ?thesis
    proof (cases "apply_event ev (detected_page_dict st1)")
      case (Inl e')
      with fl Cons.prems show ?thesis by (auto dest: apply_event_error)
    next
      case (Inr d)
      with fl Cons.prems(1) have rest: "events_loop pgs nt evs
          (st1\<lparr>detected_page_dict := d, history := history st1 @ [Applied ev d]\<rparr>) = Inl e"
        by simp
      from frames_loop_counts[OF fl] Cons.prems(2) show ?thesis
        by (intro Cons.IH[OF rest]) simp
    qed
  qed
qed

subsection \<open>The order of trials and updates\<close>

lemma events_loop_ConsD:
  "events_loop pgs nt (ev # evs) st = Inr st' \<Longrightarrow>
   \<exists>st1 d. frames_loop pgs nt ev
             (peeked_remaining_annotated_frames st @ remaining_annotated_frames st) st = Inr st1
     \<and> apply_event ev (detected_page_dict st1) = Inr d
     \<and> events_loop pgs nt evs
          (st1\<lparr>detected_page_dict := d, history := history st1 @ [Applied ev d]\<rparr>) = Inr st'"
  by (auto split: sum.splits)

lemma frames_loop_only_trials:
  assumes "frames_loop pgs nt ev chain st = Inr st'"
  shows "\<exists>new. history st' = history st @ new
     \<and> (\<forall>s\<in>set new. \<exists>f b n. s = Trial f (detected_page_dict st) b n)"
proof -
  from frames_loop_history[OF assms] obtain new where
    h: "history st' = history st @ new"
    and n: "\<forall>s\<in>set new. \<exists>f b n. s = Trial f (detected_page_dict st) b n
             \<and> trial pgs (detected_page_dict st) f = Inr b \<and> \<not> deferred ev f"
    by blast
  have "\<forall>s\<in>set new. \<exists>f b n. s = Trial f (detected_page_dict st) b n"
  proof
    fix s assume "s \<in> set new"
    with n obtain f b m where "s = Trial f (detected_page_dict st) b m" by blast
    then show "\<exists>f b n. s = Trial f (detected_page_dict st) b n" by blast
  qed
  with h show ?thesis by blast
qed

lemma split_first:
  "xs @ a # ys = pre @ b # post \<Longrightarrow> b \<notin> set xs \<Longrightarrow>
   (pre = xs \<and> b = a \<and> post = ys) \<or> (\<exists>pre2. pre = xs @ a # pre2 \<and> ys = pre2 @ b # post)"
proof (induction xs arbitrary: pre)
  case Nil
  then show ?case by (cases pre) auto
next
  case (Cons x xs)
  then show ?case by (cases pre) auto
qed

lemma applied_events_split:
  "e \<in> set (applied_events h) \<Longrightarrow> \<exists>pre d post. h = pre @ Applied e d # post"
proof (induction h rule: applied_events.induct)
  case 1
  then show ?case by simp
next
  case (2 f d b n xs)
  then obtain pre d' post where "xs = pre @ Applied e d' # post" by auto
  then have "Trial f d b n # xs = (Trial f d b n # pre) @ Applied e d' # post" by simp
  then show ?case by blast
next
  case (3 e' d xs)
  show ?case
  proof (cases "e = e'")
    case True
    then have "Applied e' d # xs = [] @ Applied e d # xs" by simp
    then show ?thesis by blast
  next
    case False
    with 3 obtain pre d' post where "xs = pre @ Applied e d' # post" by auto
    then have "Applied e' d # xs = (Applied e' d # pre) @ Applied e d' # post" by simp
    then show ?thesis by blast
  qed
qed

lemma events_loop_order:
  assumes "events_loop pgs nt (map Some es @ [None]) st = Inr st'"
    and "sorted (map number (peeked_remaining_annotated_frames st @ remaining_annotated_frames st))"
    and "sorted (map frame_number es)"
  shows "\<exists>new. history st' = history st @ new \<and>
    (\<forall>pre E d post. new = pre @ Applied (Some E) d # post \<longrightarrow>
       (\<forall>f\<in>set (peeked_remaining_annotated_frames st @ remaining_annotated_frames st).
           number f < frame_number E \<longrightarrow> f \<in> set (trialed_frames pre))
       \<and> (\<forall>f\<in>set (trialed_frames pre). number f < frame_number E))"
  using assms
proof (induction es arbitrary: st)
  case Nil
  let ?chain = "peeked_remaining_annotated_frames st @ remaining_annotated_frames st"
  from Nil.prems(1) have "events_loop pgs nt [None] st = Inr st'" by simp
  from events_loop_ConsD[OF this] obtain st1 d where
    fl: "frames_loop pgs nt None ?chain st = Inr st1"
    and "apply_event None (detected_page_dict st1) = Inr d"
    and "events_loop pgs nt []
          (st1\<lparr>detected_page_dict := d, history := history st1 @ [Applied None d]\<rparr>) = Inr st'"
    by blast
  then have st': "history st' = history st1 @ [Applied None (detected_page_dict st1)]"
    by auto
  from frames_loop_only_trials[OF fl] obtain new1 where
    h1: "history st1 = history st @ new1"
    and n1: "\<forall>s\<in>set new1. \<exists>f b n. s = Trial f (detected_page_dict st) b n"
    by blast
  let ?new = "new1 @ [Applied None (detected_page_dict st1)]"
  have "history st' = history st @ ?new" using st' h1 by simp
  moreover have "\<And>pre E d post. ?new \<noteq> pre @ Applied (Some E) d # post"
  proof
    fix pre E d post assume "?new = pre @ Applied (Some E) d # post"
    then have "Applied (Some E) d \<in> set ?new" by simp
    with n1 show False by auto
  qed
  ultimately show ?case by blast
next
  case (Cons e es)
  let ?chain = "peeked_remaining_annotated_frames st @ remaining_annotated_frames st"
  from Cons.prems(1) have "events_loop pgs nt (Some e # (map Some es @ [None])) st = Inr st'"
    by simp
  from events_loop_ConsD[OF this] obtain st1 d1 where
    fl: "frames_loop pgs nt (Some e) ?chain st = Inr st1"
    and rest: "events_loop pgs nt (map Some es @ [None])
                 (st1\<lparr>detected_page_dict := d1, history := history st1 @ [Applied (Some e) d1]\<rparr>)
               = Inr st'"
    by blast
  let ?st2 = "st1\<lparr>detected_page_dict := d1, history := history st1 @ [Applied (Some e) d1]\<rparr>"
  let ?chain1 = "peeked_remaining_annotated_frames st1 @ remaining_annotated_frames st1"
  from frames_loop_history[OF fl] obtain new1 where
    h1: "history st1 = history st @ new1"
    and c1: "trialed_frames new1 @ ?chain1 = ?chain"
    and n1: "\<forall>s\<in>set new1. \<exists>f b n. s = Trial f (detected_page_dict st) b n
             \<and> trial pgs (detected_page_dict st) f = Inr b \<and> \<not> deferred (Some e) f"
    by blast
  have tr1: "\<forall>f\<in>set (trialed_frames new1). number f < frame_number e"
    using n1 by (induction new1) auto
  have sorted1: "sorted (map number ?chain1)"
    using Cons.prems(2) c1 by (metis map_append sorted_append)
  have chain1_ge: "\<forall>f\<in>set ?chain1. frame_number e \<le> number f"
  proof (cases "peeked_remaining_annotated_frames st1")
    case Nil
    with frames_loop_peeked[OF fl] show ?thesis by auto
  next
    case (Cons f fs)
    with frames_loop_peeked[OF fl] have pk: "peeked_remaining_annotated_frames st1 = [f]"
      and df: "frame_number e \<le> number f" by auto
    from sorted1 pk have "\<forall>g\<in>set ?chain1. number f \<le> number g" by auto
    with df show ?thesis by fastforce
  qed
  have sorted_es: "sorted (map frame_number es)" using Cons.prems(3) by simp
  have sel2: "peeked_remaining_annotated_frames ?st2 = peeked_remaining_annotated_frames st1"
    "remaining_annotated_frames ?st2 = remaining_annotated_frames st1"
    "history ?st2 = history st1 @ [Applied (Some e) d1]"
    by simp_all
  have sorted2: "sorted (map number (peeked_remaining_annotated_frames ?st2
                   @ remaining_annotated_frames ?st2))"
    unfolding sel2 by (rule sorted1)
  from Cons.IH[OF rest sorted2 sorted_es] obtain new2 where
    h2: "history st' = history ?st2 @ new2"
    and o2: "\<forall>pre E d post. new2 = pre @ Applied (Some E) d # post \<longrightarrow>
       (\<forall>f\<in>set ?chain1. number f < frame_number E \<longrightarrow> f \<in> set (trialed_frames pre))
       \<and> (\<forall>f\<in>set (trialed_frames pre). number f < frame_number E)"
    unfolding sel2 by blast
  have applied2: "applied_events new2 = map Some es @ [None]"
    using events_loop_applied[OF rest] unfolding h2 by (simp add: applied_events_append)
  let ?new = "new1 @ Applied (Some e) d1 # new2"
  have hist: "history st' = history st @ ?new" unfolding h2 sel2 h1 by simp
  have "\<forall>pre E d post. ?new = pre @ Applied (Some E) d # post \<longrightarrow>
       (\<forall>f\<in>set ?chain. number f < frame_number E \<longrightarrow> f \<in> set (trialed_frames pre))
       \<and> (\<forall>f\<in>set (trialed_frames pre). number f < frame_number E)"
  proof (intro allI impI)
    fix pre E d post assume split: "?new = pre @ Applied (Some E) d # post"
    have notin: "Applied (Some E) d \<notin> set new1" using n1 by auto
    from split_first[OF split notin] consider
      (here) "pre = new1" "Applied (Some E) d = Applied (Some e) d1" "post = new2"
      | (later) pre2 where "pre = new1 @ Applied (Some e) d1 # pre2"
          "new2 = pre2 @ Applied (Some E) d # post"
      by blast
    then show "(\<forall>f\<in>set ?chain. number f < frame_number E \<longrightarrow> f \<in> set (trialed_frames pre))
       \<and> (\<forall>f\<in>set (trialed_frames pre). number f < frame_number E)"
    proof cases
      case here
      then have E: "E = e" by simp
      have "\<forall>f\<in>set ?chain. number f < frame_number e \<longrightarrow> f \<in> set (trialed_frames new1)"
      proof (intro ballI impI)
        fix f assume "f \<in> set ?chain" "number f < frame_number e"
        then have "f \<in> set (trialed_frames new1 @ ?chain1)" using c1 by simp
        then have "f \<in> set (trialed_frames new1) \<or> f \<in> set ?chain1"
          by (simp only: set_append Un_iff)
        moreover have "f \<notin> set ?chain1"
        proof
          assume "f \<in> set ?chain1"
          with chain1_ge have "frame_number e \<le> number f" by blast
          with \<open>number f < frame_number e\<close> show False by simp
        qed
        ultimately show "f \<in> set (trialed_frames new1)" by blast
      qed
      with tr1 here(1) E show ?thesis by simp
    next
      case later
      from later(2) have "Some E \<in> set (applied_events new2)"
        by (simp add: applied_events_append)
      with applied2 have "E \<in> set es" by auto
      with Cons.prems(3) have le: "frame_number e \<le> frame_number E" by auto
      from o2 later(2) have
        a: "\<forall>f\<in>set ?chain1. number f < frame_number E \<longrightarrow> f \<in> set (trialed_frames pre2)"
        and b: "\<forall>f\<in>set (trialed_frames pre2). number f < frame_number E"
        by blast+
      have tp: "trialed_frames pre = trialed_frames new1 @ trialed_frames pre2"
        using later(1) by (simp add: trialed_frames_append)
      have "\<forall>f\<in>set ?chain. number f < frame_number E \<longrightarrow> f \<in> set (trialed_frames pre)"
      proof (intro ballI impI)
        fix f assume "f \<in> set ?chain" "number f < frame_number E"
        then have "f \<in> set (trialed_frames new1) \<or> f \<in> set ?chain1"
          using c1 by (metis Un_iff set_append)
        with a \<open>number f < frame_number E\<close> show "f \<in> set (trialed_frames pre)"
          unfolding tp by auto
      qed
      moreover have "\<forall>f\<in>set (trialed_frames pre). number f < frame_number E"
        unfolding tp using tr1 b le by fastforce
      ultimately show ?thesis by blast
    qed
  qed
  with hist show ?case by blast
qed

subsection \<open>The success condition and runs that return\<close>

lemma screens_loop_result:
  "screens_loop pgs det ss (every, pm) = Inr (every', pm') \<Longrightarrow>
   (every' \<longleftrightarrow> every \<and> (\<forall>s\<in>set ss. closest_matches_of pgs s \<noteq> {} \<longrightarrow>
                             det \<inter> Some ` closest_matches_of pgs s \<noteq> {}))
   \<and> pm' = pm \<union> Some ` (\<Union>s\<in>set ss. closest_matches_of pgs s)"
proof (induction ss arbitrary: every pm)
  case Nil
  then show ?case by simp
next
  case (Cons s ss)
  from Cons.prems obtain full inc closest where
    mp: "matching_pages pgs s = Inr (full, inc, closest)"
    by (auto split: sum.splits)
  then have cm: "closest_matches_of pgs s = set closest"
    by (simp add: closest_matches_of_def)
  let ?every1 = "if Some ` set closest \<noteq> {} \<and> det \<inter> Some ` set closest = {} then False else every"
  from Cons.prems mp have
    "screens_loop pgs det ss (?every1, pm \<union> Some ` set closest) = Inr (every', pm')"
    by (simp add: Let_def)
  from Cons.IH[OF this] show ?case
    unfolding cm[symmetric] by (auto simp: image_Un)
qed

lemma screens_outcome:
  assumes "screens_loop pgs det (pristine_screen_detector f) (True, {}) = Inr (every, pm)"
  shows "every \<and> card (det - pm) \<le> length (nonpristine_screen_detector f)
         \<longleftrightarrow> succeeds_with det pgs f"
proof -
  have ps: "set (pristine_screen_detector f) = {s \<in> set (screens f). condition s = ''pristine''}"
    by (auto simp: pristine_screen_detector_def detect_def)
  have nps: "nonpristine_screen_detector f
      = filter (\<lambda>s. condition s = ''windowed'' \<or> condition s = ''obstacle'') (screens f)"
    by (simp add: nonpristine_screen_detector_def detect_def)
  from screens_loop_result[OF assms] have
    e: "every \<longleftrightarrow> (\<forall>s\<in>set (pristine_screen_detector f). closest_matches_of pgs s \<noteq> {} \<longrightarrow>
                     det \<inter> Some ` closest_matches_of pgs s \<noteq> {})"
    and p: "pm = Some ` (\<Union>s\<in>set (pristine_screen_detector f). closest_matches_of pgs s)"
    by simp_all
  have e': "every \<longleftrightarrow> (\<forall>s\<in>set (screens f). condition s = ''pristine'' \<longrightarrow>
       closest_matches_of pgs s \<noteq> {} \<longrightarrow> det \<inter> Some ` closest_matches_of pgs s \<noteq> {})"
    unfolding e ps by blast
  show ?thesis
    unfolding succeeds_with_def e' p ps nps ..
qed

lemma nonnull_pages_of_eq: "nonnull_pages_of d = snd ` set d - {None}"
  by (auto simp: nonnull_pages_of_def)

lemma claimed_success_iff:
  "None \<notin> snd ` set d \<Longrightarrow> claimed_success pgs d f \<longleftrightarrow> trial_succeeds pgs d f"
  by (simp add: claimed_success_def trial_succeeds_def nonnull_pages_of_eq)

lemma card_with_null:
  assumes "finite A" and "None \<in> A"
  shows "card (A - Some ` M) = Suc (card ((A - {None}) - Some ` M))"
proof -
  let ?B = "(A - {None}) - Some ` M"
  have eq: "A - Some ` M = insert None ?B"
    using assms(2) by auto
  have notin: "None \<notin> ?B" by simp
  have fin: "finite ?B" using assms(1) by simp
  have "card (insert None ?B) = Suc (card ?B)"
    using fin notin by (rule card_insert_disjoint)
  with eq show ?thesis by simp
qed

lemma screens_loop_total:
  "\<forall>s\<in>set ss. set (keys_with ''full'' s) \<union> set (keys_with ''incremental'' s) \<subseteq> dom pgs \<Longrightarrow>
   \<exists>r. screens_loop pgs det ss acc = Inr r"
proof (induction ss arbitrary: acc)
  case Nil
  then show ?case by simp
next
  case (Cons s ss)
  obtain every pm where acc: "acc = (every, pm)" by (cases acc)
  from Cons.prems have "\<exists>full inc closest. matching_pages pgs s = Inr (full, inc, closest)"
    by (simp add: matching_pages_eq)
  then obtain full inc closest where mp: "matching_pages pgs s = Inr (full, inc, closest)"
    by blast
  from Cons.prems have "\<forall>s\<in>set ss. set (keys_with ''full'' s) \<union> set (keys_with ''incremental'' s) \<subseteq> dom pgs"
    by simp
  from Cons.IH[OF this] show ?case
    unfolding acc by (simp add: mp Let_def)
qed

lemma trial_total:
  assumes "keyrefs_resolve pgs f"
  shows "\<exists>b. trial pgs d f = Inr b"
proof -
  have "\<forall>s\<in>set (pristine_screen_detector f).
          set (keys_with ''full'' s) \<union> set (keys_with ''incremental'' s) \<subseteq> dom pgs"
    using assms by (auto simp: keyrefs_resolve_def pristine_screen_detector_def detect_def)
  from screens_loop_total[OF this] obtain r where
    "screens_loop pgs (detected_pages_of d) (pristine_screen_detector f) (True, {}) = Inr r"
    by blast
  then show ?thesis
    by (cases r) (simp add: trial_def Let_def)
qed

lemma frames_loop_total:
  "\<forall>f\<in>set chain. keyrefs_resolve pgs f \<Longrightarrow> num_successes st + length chain \<le> nt \<Longrightarrow>
   \<exists>st'. frames_loop pgs nt ev chain st = Inr st'"
proof (induction chain arbitrary: st)
  case Nil
  then show ?case by simp
next
  case (Cons f fs)
  from Cons.prems(1) have "keyrefs_resolve pgs f" by simp
  from trial_total[OF this] obtain b where
    b: "trial pgs (detected_page_dict st) f = Inr b" by blast
  from Cons.prems(1) have all: "\<forall>f\<in>set fs. keyrefs_resolve pgs f" by simp
  show ?case
  proof (cases "deferred ev f")
    case True
    then show ?thesis by simp
  next
    case False
    show ?thesis
    proof (cases b)
      case True
      let ?st1 = "st\<lparr>num_successes := Suc (num_successes st),
        history := history st @ [Trial f (detected_page_dict st) True (Suc (num_successes st))]\<rparr>"
      from Cons.prems(2) have "num_successes ?st1 + length fs \<le> nt" by simp
      from Cons.IH[OF all this] obtain st' where "frames_loop pgs nt ev fs ?st1 = Inr st'"
        by blast
      with False b True Cons.prems(2) show ?thesis by simp
    next
      case F: False
      let ?st1 = "st\<lparr>history := history st @ [Trial f (detected_page_dict st) False (num_successes st)]\<rparr>"
      from Cons.prems(2) have "num_successes ?st1 + length fs \<le> nt" by simp
      from Cons.IH[OF all this] obtain st' where "frames_loop pgs nt ev fs ?st1 = Inr st'"
        by blast
      with False b F show ?thesis by simp
    qed
  qed
qed

lemma frames_loop_chain:
  "frames_loop pgs nt ev chain st = Inr st' \<Longrightarrow>
   set (peeked_remaining_annotated_frames st' @ remaining_annotated_frames st') \<subseteq> set chain"
proof (induction chain arbitrary: st)
  case Nil
  then show ?case by auto
next
  case (Cons f fs)
  then show ?case
    by (fastforce split: sum.splits if_splits)
qed

lemma apply_event_total:
  "well_tracked (fst ` set d) (e # es) \<Longrightarrow>
   \<exists>d'. apply_event (Some e) d = Inr d' \<and> well_tracked (fst ` set d') es"
proof (cases e)
  case (ScreenAppearedEvent n sid pg)
  assume "well_tracked (fst ` set d) (e # es)"
  with ScreenAppearedEvent show ?thesis by (simp add: dom_update)
next
  case (ScreenChangedContentEvent n sid pg)
  assume "well_tracked (fst ` set d) (e # es)"
  with ScreenChangedContentEvent show ?thesis by (simp add: dom_update)
next
  case (ScreenDisappearedEvent n sid)
  assume wt: "well_tracked (fst ` set d) (e # es)"
  have "fst ` set (AList.delete sid d) = fst ` set d - {sid}"
    using delete_keys[of sid d] by (metis set_map set_removeAll)
  with wt ScreenDisappearedEvent show ?thesis by simp
qed

lemma events_loop_total:
  "well_tracked (fst ` set (detected_page_dict st)) es \<Longrightarrow>
   \<forall>f\<in>set (peeked_remaining_annotated_frames st @ remaining_annotated_frames st).
      keyrefs_resolve pgs f \<Longrightarrow>
   num_successes st
     + length (peeked_remaining_annotated_frames st @ remaining_annotated_frames st) \<le> nt \<Longrightarrow>
   \<exists>st'. events_loop pgs nt (map Some es @ [None]) st = Inr st'"
proof (induction es arbitrary: st)
  case Nil
  from frames_loop_total[OF Nil.prems(2,3)] obtain st1 where
    "frames_loop pgs nt None
       (peeked_remaining_annotated_frames st @ remaining_annotated_frames st) st = Inr st1"
    by blast
  then show ?case by simp
next
  case (Cons e es)
  let ?chain = "peeked_remaining_annotated_frames st @ remaining_annotated_frames st"
  from frames_loop_total[OF Cons.prems(2,3)] obtain st1 where
    fl: "frames_loop pgs nt (Some e) ?chain st = Inr st1"
    by blast
  let ?chain1 = "peeked_remaining_annotated_frames st1 @ remaining_annotated_frames st1"
  have d1: "detected_page_dict st1 = detected_page_dict st" by (rule frames_loop_dict[OF fl])
  from apply_event_total[OF Cons.prems(1)] obtain d' where
    ap: "apply_event (Some e) (detected_page_dict st1) = Inr d'"
    and wt: "well_tracked (fst ` set d') es"
    unfolding d1 by blast
  let ?st2 = "st1\<lparr>detected_page_dict := d', history := history st1 @ [Applied (Some e) d']\<rparr>"
  have sel: "detected_page_dict ?st2 = d'"
    "peeked_remaining_annotated_frames ?st2 = peeked_remaining_annotated_frames st1"
    "remaining_annotated_frames ?st2 = remaining_annotated_frames st1"
    "num_successes ?st2 = num_successes st1"
    by simp_all
  have "set ?chain1 \<subseteq> set ?chain"
    by (rule frames_loop_chain[OF fl])
  with Cons.prems(2) have res: "\<forall>f\<in>set ?chain1. keyrefs_resolve pgs f" by blast
  from frames_loop_counts[OF fl] Cons.prems(3)
  have cnt: "num_successes st1 + length ?chain1 \<le> nt" by simp
  have p1: "well_tracked (fst ` set (detected_page_dict ?st2)) es"
    unfolding sel by (rule wt)
  have p2: "\<forall>f\<in>set (peeked_remaining_annotated_frames ?st2 @ remaining_annotated_frames ?st2).
              keyrefs_resolve pgs f"
    unfolding sel by (rule res)
  have p3: "num_successes ?st2
      + length (peeked_remaining_annotated_frames ?st2 @ remaining_annotated_frames ?st2) \<le> nt"
    unfolding sel by (rule cnt)
  have "\<exists>st'. events_loop pgs nt (map Some es @ [None]) ?st2 = Inr st'"
    by (rule Cons.IH[OF p1 p2 p3])
  then obtain st' where "events_loop pgs nt (map Some es @ [None]) ?st2 = Inr st'" by blast
  with fl ap show ?case by simp
qed

subsection \<open>Whole runs\<close>

lemma run_trials:
  assumes "run v es = Inr st" and "Trial f d b n \<in> set (history st)"
  shows "trial (pages v) d f = Inr b \<and> distinct (map fst d)"
proof -
  from assms(1) have ev: "events_loop (pages v) (length (frames v)) (map Some es @ [None])
      (initial_state v) = Inr st"
    by (simp add: run_def)
  have "(\<forall>f d b n. Trial f d b n \<in> set (history st) \<longrightarrow>
           trial (pages v) d f = Inr b \<and> distinct (map fst d))
        \<and> distinct (map fst (detected_page_dict st))"
    by (rule events_loop_trials[OF ev]) (simp_all add: initial_state_def)
  with assms(2) show ?thesis by blast
qed

lemma run_events_loop:
  "run v es = Inr st \<Longrightarrow>
   events_loop (pages v) (length (frames v)) (map Some es @ [None]) (initial_state v) = Inr st"
  by (simp add: run_def)

lemma initial_state_sel:
  "peeked_remaining_annotated_frames (initial_state v) = []"
  "remaining_annotated_frames (initial_state v) = frames v"
  "num_successes (initial_state v) = 0"
  "detected_page_dict (initial_state v) = []"
  "history (initial_state v) = []"
  by (simp_all add: initial_state_def)

lemma frames_loop_None_exhausts:
  "frames_loop pgs nt None chain st = Inr st' \<Longrightarrow>
   peeked_remaining_annotated_frames st' = [] \<and> remaining_annotated_frames st' = []"
  by (induction chain arbitrary: st) (auto split: sum.splits if_splits)

lemma frames_loop_trialed:
  "frames_loop pgs nt ev chain st = Inr st' \<Longrightarrow>
   trialed_frames (history st') @ peeked_remaining_annotated_frames st'
       @ remaining_annotated_frames st'
   = trialed_frames (history st) @ chain"
proof (induction chain arbitrary: st)
  case Nil
  then show ?case by auto
next
  case (Cons f fs)
  then show ?case
    by (fastforce simp: trialed_frames_append split: sum.splits if_splits)
qed

lemma final_pass:
  assumes "events_loop pgs nt [None] st1 = Inr st"
  shows "\<exists>fin. history st = history st1 @ fin @ [Applied None (detected_page_dict st1)]
     \<and> trialed_frames fin
         = peeked_remaining_annotated_frames st1 @ remaining_annotated_frames st1
     \<and> (\<forall>s\<in>set fin. \<exists>f b n. s = Trial f (detected_page_dict st1) b n)
     \<and> detected_page_dict st = detected_page_dict st1
     \<and> peeked_remaining_annotated_frames st = [] \<and> remaining_annotated_frames st = []"
proof -
  let ?chain = "peeked_remaining_annotated_frames st1 @ remaining_annotated_frames st1"
  from events_loop_ConsD[OF assms] obtain st2 d where
    fl: "frames_loop pgs nt None ?chain st1 = Inr st2"
    and ap: "apply_event None (detected_page_dict st2) = Inr d"
    and ev: "events_loop pgs nt []
          (st2\<lparr>detected_page_dict := d, history := history st2 @ [Applied None d]\<rparr>) = Inr st"
    by blast
  have d2: "detected_page_dict st2 = detected_page_dict st1" by (rule frames_loop_dict[OF fl])
  from ap have d: "d = detected_page_dict st1" unfolding d2 by simp
  from ev have st: "st = st2\<lparr>detected_page_dict := d, history := history st2 @ [Applied None d]\<rparr>"
    by simp
  from frames_loop_None_exhausts[OF fl] have ex:
    "peeked_remaining_annotated_frames st2 = []" "remaining_annotated_frames st2 = []"
    by simp_all
  from frames_loop_only_trials[OF fl] obtain fin where
    h: "history st2 = history st1 @ fin"
    and n: "\<forall>s\<in>set fin. \<exists>f b n. s = Trial f (detected_page_dict st1) b n"
    by blast
  from frames_loop_trialed[OF fl] have c: "trialed_frames fin = ?chain"
    unfolding ex h by (simp add: trialed_frames_append)
  have "history st = history st1 @ fin @ [Applied None (detected_page_dict st1)]"
    unfolding st d by (simp add: h)
  moreover have "detected_page_dict st = detected_page_dict st1" unfolding st d by simp
  moreover have "peeked_remaining_annotated_frames st = []" "remaining_annotated_frames st = []"
    unfolding st using ex by simp_all
  ultimately show ?thesis using c n by (intro exI[of _ fin] conjI)
qed

lemma run_split:
  assumes "run v es = Inr st"
  shows "\<exists>st1. events_loop (pages v) (length (frames v)) (map Some es) (initial_state v) = Inr st1
           \<and> events_loop (pages v) (length (frames v)) [None] st1 = Inr st"
proof -
  let ?r = "events_loop (pages v) (length (frames v)) (map Some es) (initial_state v)"
  have E: "(case ?r of Inl e \<Rightarrow> Inl e
            | Inr st1 \<Rightarrow> events_loop (pages v) (length (frames v)) [None] st1) = Inr st"
    using run_events_loop[OF assms] by (simp only: events_loop_append)
  show ?thesis
  proof (cases ?r)
    case (Inl e)
    with E have False by simp
    then show ?thesis ..
  next
    case (Inr st1)
    with E have "events_loop (pages v) (length (frames v)) [None] st1 = Inr st"
      by (simp only: sum.case)
    with Inr show ?thesis by blast
  qed
qed

lemma run_frames:
  assumes "run v es = Inr st"
  shows "trialed_frames (history st) = frames v"
proof -
  from run_split[OF assms] obtain st1 where
    "events_loop (pages v) (length (frames v)) [None] st1 = Inr st" by blast
  from final_pass[OF this] have
    "peeked_remaining_annotated_frames st = [] \<and> remaining_annotated_frames st = []"
    by blast
  with events_loop_frames[OF run_events_loop[OF assms]] show ?thesis
    by (simp add: initial_state_sel)
qed

lemma run_order:
  fixes st :: "('i, 'p) state"
  assumes "run v es = Inr st"
    and "sorted (map number (frames v))" and "sorted (map frame_number es)"
    and "history st = pre @ Applied (Some E) d # post"
  shows "(\<forall>f\<in>set (frames v). number f < frame_number E \<longrightarrow> f \<in> set (trialed_frames pre))
       \<and> (\<forall>f\<in>set (trialed_frames pre). number f < frame_number E)"
proof -
  let ?init = "initial_state v :: ('i, 'p) state"
  have s0: "sorted (map number (peeked_remaining_annotated_frames ?init
              @ remaining_annotated_frames ?init))"
    unfolding initial_state_sel using assms(2) by simp
  from events_loop_order[OF run_events_loop[OF assms(1)] s0 assms(3)] obtain new where
    h: "history st = history ?init @ new"
    and o: "\<forall>pre E d post. new = pre @ Applied (Some E) d # post \<longrightarrow>
       (\<forall>f\<in>set (peeked_remaining_annotated_frames ?init @ remaining_annotated_frames ?init).
           number f < frame_number E \<longrightarrow> f \<in> set (trialed_frames pre))
       \<and> (\<forall>f\<in>set (trialed_frames pre). number f < frame_number E)"
    by blast
  from h have "new = history st" unfolding initial_state_sel by simp
  with assms(4) have "new = pre @ Applied (Some E) d # post" by simp
  with o have "(\<forall>f\<in>set (peeked_remaining_annotated_frames ?init
                     @ remaining_annotated_frames ?init).
           number f < frame_number E \<longrightarrow> f \<in> set (trialed_frames pre))
       \<and> (\<forall>f\<in>set (trialed_frames pre). number f < frame_number E)"
    by blast
  then show ?thesis unfolding initial_state_sel by simp
qed

lemma run_total:
  fixes v :: "('p, 'z) AnnotatedSampledVideo_scheme" and es :: "('i, 'p) event list"
  assumes "\<forall>f\<in>set (frames v). keyrefs_resolve (pages v) f" and "well_tracked {} es"
  shows "\<exists>st :: ('i, 'p) state. run v es = Inr st"
proof -
  let ?init = "initial_state v :: ('i, 'p) state"
  have p1: "well_tracked (fst ` set (detected_page_dict ?init)) es"
    unfolding initial_state_sel using assms(2) by simp
  have p2: "\<forall>f\<in>set (peeked_remaining_annotated_frames ?init @ remaining_annotated_frames ?init).
              keyrefs_resolve (pages v) f"
    unfolding initial_state_sel using assms(1) by simp
  have p3: "num_successes ?init
      + length (peeked_remaining_annotated_frames ?init @ remaining_annotated_frames ?init)
      \<le> length (frames v)"
    unfolding initial_state_sel by simp
  from events_loop_total[OF p1 p2 p3] show ?thesis
    by (simp add: run_def)
qed

lemma run_not_assertion:
  fixes v :: "('p, 'z) AnnotatedSampledVideo_scheme" and es :: "('i, 'p) event list"
  shows "run v es \<noteq> (Inl AssertionError :: error + ('i, 'p) state)"
proof
  let ?init = "initial_state v :: ('i, 'p) state"
  assume "run v es = (Inl AssertionError :: error + ('i, 'p) state)"
  then have e: "events_loop (pages v) (length (frames v)) (map Some es @ [None]) ?init
             = Inl AssertionError"
    by (simp add: run_def)
  have "num_successes ?init
      + length (peeked_remaining_annotated_frames ?init @ remaining_annotated_frames ?init)
      \<le> length (frames v)"
    unfolding initial_state_sel by simp
  from events_loop_error[OF e this] show False by simp
qed

subsection \<open>The small videos, evaluated\<close>

lemma frame_numbers: "number frame1 = 1" "number frame2 = 2"
  by (simp_all add: frame1_def frame2_def)

lemma example_matching:
  "matching_pages example_pages example_screen = Inr ([''P1''], [''P2''], [''P1''])"
  by (simp add: matching_pages_def keys_with_def example_pages_def example_screen_def)

lemma example_condition: "condition example_screen = ''pristine''"
  by (simp add: example_screen_def)

lemma example_trial1: "trial example_pages [(0::nat, Some ''P1'')] frame1 = Inr True"
  by (simp add: trial_def frame1_def pristine_screen_detector_def nonpristine_screen_detector_def
      detect_def detected_pages_of_def example_matching example_condition)

lemma example_trial2: "trial example_pages ([]::(nat, string) page_dict) frame2 = Inr True"
  by (simp add: trial_def frame2_def pristine_screen_detector_def nonpristine_screen_detector_def
      detect_def detected_pages_of_def)

lemma example_trial_null: "trial example_pages [(0::nat, None)] frame2 = Inr False"
  by (simp add: trial_def frame2_def pristine_screen_detector_def nonpristine_screen_detector_def
      detect_def detected_pages_of_def)

lemma example_run: "run example_video example_events = Inr example_final"
  by (simp add: run_def example_video_def example_events_def initial_state_def example_final_def
      example_trial1 example_trial2 frame1_def[THEN arg_cong, of number] frame2_def[THEN arg_cong, of number])

lemma example_evaluate: "evaluate_event_detector example_video example_events = Inr (2, 2)"
  by (simp add: evaluate_event_detector_def example_run) (simp add: example_final_def example_video_def)

lemma example_resolve: "keyrefs_resolve (pages example_video) frame1"
  "keyrefs_resolve (pages example_video) frame2"
  by (simp_all add: keyrefs_resolve_def example_video_def frame1_def frame2_def
      example_screen_def keys_with_def example_pages_def)

lemma example_tracked: "well_tracked {} example_events"
  by (simp add: example_events_def)

lemma example_prefix:
  "events_loop (pages example_video) (length (frames example_video))
     (map Some [ScreenAppearedEvent 1 (0::nat) (Some ''P1'')]) (initial_state example_video)
   = Inr \<lparr>peeked_remaining_annotated_frames = [frame1],
           remaining_annotated_frames = [frame2],
           num_successes = 0,
           detected_page_dict = [(0, Some ''P1'')],
           history = [Applied (Some (ScreenAppearedEvent 1 0 (Some ''P1''))) [(0, Some ''P1'')]]\<rparr>"
  by (simp add: example_video_def initial_state_def frame_numbers)

lemma null_run: "run null_video null_events = Inr null_final"
  by (simp add: run_def null_video_def null_events_def initial_state_def null_final_def
      example_trial_null frame_numbers)

lemma null_evaluate: "evaluate_event_detector null_video null_events = Inr (0, 1)"
  by (simp add: evaluate_event_detector_def null_run) (simp add: null_final_def null_video_def)

lemma example_claimed_null: "claimed_success example_pages [(0::nat, None)] frame2"
  by (simp add: claimed_success_def succeeds_with_def nonnull_pages_of_def frame2_def)

lemma example_succeeds_null:
  "\<not> succeeds_with (ran (map_of [(0::nat, None::string option)])) example_pages frame2"
  by (simp add: succeeds_with_def frame2_def)

section \<open>The claims\<close>

text \<open>
  Claim C1 as stated fails. With the belief state \<open>[(0, None)]\<close> on a frame without screens
  the condition of the claim holds, since there is no pristine screen and no page that is
  not \<^verbatim>\<open>None\<close>, but the trial fails: \<^verbatim>\<open>None\<close> is one detected page that nothing matches,
  against no windowed or obstacle screen. The run over this one frame counts no success.
\<close>

theorem null_value_trial_counterexample:
  "claimed_success example_pages [(0::nat, None)] frame2
   \<and> trial example_pages [(0::nat, None)] frame2 = Inr False
   \<and> run null_video null_events = Inr null_final
   \<and> num_successes null_final = 0"
  by (simp add: example_claimed_null example_trial_null null_run) (simp add: null_final_def)

text \<open>
  Claim C1, amended. A trial of a frame with belief state \<open>d\<close> that returns, and so every
  trial that a run of \<^verbatim>\<open>evaluate_event_detector\<close> logs, is a success if and only if every
  pristine screen of the frame with a non-empty closest-match set shares a page with the
  values of \<open>d\<close>, and the number of distinct values of \<open>d\<close>, a stored \<^verbatim>\<open>None\<close> counted as
  one of them, outside the union of these closest-match sets is at most the number of
  windowed and obstacle screens of the frame. When no value of \<open>d\<close> is \<^verbatim>\<open>None\<close> this is the
  condition of the claim.
\<close>

theorem trial_success_condition:
  "(\<forall>b. trial pgs d f = Inr b \<longrightarrow> (b \<longleftrightarrow> trial_succeeds pgs d f))
   \<and> (\<forall>st b n. run v es = Inr st \<longrightarrow> Trial f d b n \<in> set (history st) \<longrightarrow>
          (b \<longleftrightarrow> trial_succeeds (pages v) d f))
   \<and> (None \<notin> snd ` set d \<longrightarrow> (trial_succeeds pgs d f \<longleftrightarrow> claimed_success pgs d f))"
proof (intro conjI allI impI)
  have dp: "detected_pages_of d = snd ` set d" by (simp add: detected_pages_of_def)
  have outcome: "b \<longleftrightarrow> trial_succeeds pgs' d f" if t: "trial pgs' d f = Inr b" for pgs' b
  proof -
    from t obtain every pm where
      sl: "screens_loop pgs' (detected_pages_of d) (pristine_screen_detector f) (True, {})
             = Inr (every, pm)"
      and b: "b \<longleftrightarrow> every
                \<and> card (detected_pages_of d - pm) \<le> length (nonpristine_screen_detector f)"
      by (auto simp: trial_def Let_def split: sum.splits)
    from screens_outcome[OF sl] b have "b \<longleftrightarrow> succeeds_with (detected_pages_of d) pgs' f"
      by simp
    then show ?thesis by (simp add: trial_succeeds_def dp)
  qed
  {
    fix b assume "trial pgs d f = Inr b"
    then show "b \<longleftrightarrow> trial_succeeds pgs d f" by (rule outcome)
  next
    fix st b n
    assume "run v es = Inr st" and "Trial f d b n \<in> set (history st)"
    then have "trial (pages v) d f = Inr b" using run_trials by blast
    then show "b \<longleftrightarrow> trial_succeeds (pages v) d f" by (rule outcome)
  }
next
  assume "None \<notin> snd ` set d"
  then show "trial_succeeds pgs d f \<longleftrightarrow> claimed_success pgs d f"
    by (simp add: claimed_success_iff)
qed

theorem trial_success_condition_witness:
  "run example_video example_events = Inr example_final
   \<and> Trial frame1 [(0, Some ''P1'')] True 1 \<in> set (history example_final)
   \<and> trial example_pages [(0::nat, Some ''P1'')] frame1 = Inr True
   \<and> trial_succeeds example_pages [(0::nat, Some ''P1'')] frame1
   \<and> trial_succeeds (pages example_video) [(0::nat, Some ''P1'')] frame1
   \<and> None \<notin> snd ` set [(0::nat, Some ''P1'')]
   \<and> claimed_success example_pages [(0::nat, Some ''P1'')] frame1"
proof -
  have h: "Trial frame1 [(0, Some ''P1'')] True 1 \<in> set (history example_final)"
    by (simp add: example_final_def)
  have n: "None \<notin> snd ` set [(0::nat, Some ''P1'')]" by simp
  note c1 = trial_success_condition[of example_pages "[(0::nat, Some ''P1'')]" frame1
      example_video example_events]
  from conjunct1[OF c1] example_trial1
  have a: "trial_succeeds example_pages [(0::nat, Some ''P1'')] frame1" by blast
  from conjunct1[OF conjunct2[OF c1]] example_run h
  have b: "trial_succeeds (pages example_video) [(0::nat, Some ''P1'')] frame1" by blast
  from conjunct2[OF conjunct2[OF c1]] n a
  have c: "claimed_success example_pages [(0::nat, Some ''P1'')] frame1" by blast
  from example_run h example_trial1 a b n c show ?thesis by (intro conjI)
qed

text \<open>
  Claim C2. With the frames in the order of their numbers (line 617 sorts them) and the events
  in the order of their frame numbers (the precondition of the specification on the event
  stream), the update of every event \<open>E\<close> of the stream is executed in a run that returns,
  and at each point where it is executed every frame with a number less than the frame number
  of \<open>E\<close> has been trialed, only such frames have been trialed, and every frame with a
  number at least that of \<open>E\<close> is trialed afterwards.
\<close>

theorem frames_before_event_update:
  assumes "run v es = Inr st"
    and "sorted (map number (frames v))" and "sorted (map frame_number es)"
  shows "(\<forall>E\<in>set es. \<exists>pre d post. history st = pre @ Applied (Some E) d # post)
    \<and> (\<forall>pre E d post. history st = pre @ Applied (Some E) d # post \<longrightarrow>
          (\<forall>f\<in>set (frames v). number f < frame_number E \<longrightarrow> f \<in> set (trialed_frames pre))
        \<and> (\<forall>f\<in>set (trialed_frames pre). number f < frame_number E)
        \<and> (\<forall>f\<in>set (frames v). frame_number E \<le> number f \<longrightarrow> f \<in> set (trialed_frames post)))"
proof (intro conjI ballI allI impI)
  fix E assume "E \<in> set es"
  have "applied_events (history st) = map Some es @ [None]"
    using events_loop_applied[OF run_events_loop[OF assms(1)]]
    by (simp add: initial_state_sel)
  with \<open>E \<in> set es\<close> have "Some E \<in> set (applied_events (history st))" by simp
  then show "\<exists>pre d post. history st = pre @ Applied (Some E) d # post"
    by (rule applied_events_split)
next
  fix pre E d post f
  assume sp: "history st = pre @ Applied (Some E) d # post"
    and "f \<in> set (frames v)" "number f < frame_number E"
  with run_order[OF assms sp] show "f \<in> set (trialed_frames pre)" by blast
next
  fix pre E d post f
  assume sp: "history st = pre @ Applied (Some E) d # post"
    and "f \<in> set (trialed_frames pre)"
  with run_order[OF assms sp] show "number f < frame_number E" by blast
next
  fix pre E d post f
  assume sp: "history st = pre @ Applied (Some E) d # post"
    and f: "f \<in> set (frames v)" and ge: "frame_number E \<le> number f"
  have "f \<notin> set (trialed_frames pre)"
  proof
    assume "f \<in> set (trialed_frames pre)"
    with run_order[OF assms sp] have "number f < frame_number E" by blast
    with ge show False by simp
  qed
  moreover have "set (frames v) = set (trialed_frames pre) \<union> set (trialed_frames post)"
    using run_frames[OF assms(1)] unfolding sp
    by (simp add: trialed_frames_append) (metis set_append)
  ultimately show "f \<in> set (trialed_frames post)" using f by blast
qed

theorem frames_before_event_update_witness:
  "run example_video example_events = Inr example_final
   \<and> sorted (map number (frames example_video))
   \<and> sorted (map frame_number example_events)
   \<and> history example_final
       = [Applied (Some (ScreenAppearedEvent 1 0 (Some ''P1''))) [(0, Some ''P1'')],
          Trial frame1 [(0, Some ''P1'')] True 1]
         @ Applied (Some (ScreenDisappearedEvent 2 0)) []
         # [Trial frame2 [] True 2, Applied None []]
   \<and> frame1 \<in> set (trialed_frames
         [Applied (Some (ScreenAppearedEvent 1 (0::nat) (Some ''P1''))) [(0, Some ''P1'')],
          Trial frame1 [(0, Some ''P1'')] True 1])
   \<and> frame2 \<in> set (trialed_frames
         [Trial frame2 ([]::(nat, string) page_dict) True 2, Applied None []])"
proof -
  have s1: "sorted (map number (frames example_video))"
    by (simp add: example_video_def frame1_def frame2_def)
  have s2: "sorted (map frame_number example_events)"
    by (simp add: example_events_def)
  have h: "history example_final
       = [Applied (Some (ScreenAppearedEvent 1 0 (Some ''P1''))) [(0, Some ''P1'')],
          Trial frame1 [(0, Some ''P1'')] True 1]
         @ Applied (Some (ScreenDisappearedEvent 2 0)) []
         # [Trial frame2 [] True 2, Applied None []]"
    by (simp add: example_final_def)
  from frames_before_event_update[OF example_run s1 s2] example_run s1 s2 h
  show ?thesis by simp
qed

text \<open>
  Claim C3 as stated fails: on the empty belief state the disappearance of screen 0 is not a
  no-op, \<^verbatim>\<open>del\<close> raises \<^verbatim>\<open>KeyError\<close> and the run over the small video returns nothing.
\<close>

theorem untracked_disappearance_counterexample:
  "apply_event (Some (ScreenDisappearedEvent 1 (0::nat))) ([]::(nat, string) page_dict)
     = Inl KeyError
   \<and> evaluate_event_detector example_video [ScreenDisappearedEvent 1 (0::nat)] = Inl KeyError"
  by (simp add: evaluate_event_detector_def run_def example_video_def initial_state_def
      frame_numbers)

text \<open>
  Claim C3, amended. When the events before a disappearance event leave a belief state in which
  the screen identifier of the event is not a key, the update of the event raises
  \<^verbatim>\<open>KeyError\<close> and \<^verbatim>\<open>evaluate_event_detector\<close> ends with this error instead of a result.
\<close>

theorem untracked_disappearance_raises:
  fixes v :: "('p, 'z) AnnotatedSampledVideo_scheme" and st1 :: "('i, 'p) state"
  assumes "events_loop (pages v) (length (frames v)) (map Some es1) (initial_state v) = Inr st1"
    and "sid \<notin> fst ` set (detected_page_dict st1)"
  shows "apply_event (Some (ScreenDisappearedEvent n sid)) (detected_page_dict st1) = Inl KeyError
    \<and> evaluate_event_detector v (es1 @ ScreenDisappearedEvent n sid # es2) = Inl KeyError"
proof
  show ap: "apply_event (Some (ScreenDisappearedEvent n sid)) (detected_page_dict st1)
              = Inl KeyError"
    using assms(2) by simp
  let ?D = "ScreenDisappearedEvent n sid :: ('i, 'p) event"
  let ?rest = "map Some es2 @ [None]"
  have "run v (es1 @ ?D # es2)
        = events_loop (pages v) (length (frames v)) (Some ?D # ?rest) st1"
    by (simp add: run_def events_loop_append assms(1))
  also have "\<exists>e. \<dots> = Inl e"
  proof (cases "frames_loop (pages v) (length (frames v)) (Some ?D)
          (peeked_remaining_annotated_frames st1 @ remaining_annotated_frames st1) st1")
    case (Inl e)
    then show ?thesis by simp
  next
    case (Inr st2)
    from frames_loop_dict[OF Inr] ap
    have "apply_event (Some ?D) (detected_page_dict st2) = Inl KeyError" by simp
    with Inr show ?thesis by simp
  qed
  finally obtain e where e: "run v (es1 @ ?D # es2) = (Inl e :: error + ('i, 'p) state)"
    by blast
  with run_not_assertion[of v "es1 @ ?D # es2"] have "e = KeyError"
    by (cases e) auto
  with e show "evaluate_event_detector v (es1 @ ?D # es2) = Inl KeyError"
    by (simp add: evaluate_event_detector_def)
qed

theorem untracked_disappearance_raises_witness:
  "events_loop (pages example_video) (length (frames example_video))
     (map Some [ScreenAppearedEvent 1 (0::nat) (Some ''P1'')]) (initial_state example_video)
   = Inr \<lparr>peeked_remaining_annotated_frames = [frame1],
           remaining_annotated_frames = [frame2],
           num_successes = 0,
           detected_page_dict = [(0, Some ''P1'')],
           history = [Applied (Some (ScreenAppearedEvent 1 0 (Some ''P1''))) [(0, Some ''P1'')]]\<rparr>
   \<and> (7::nat) \<notin> fst ` set [(0::nat, Some ''P1'')]
   \<and> evaluate_event_detector example_video
         ([ScreenAppearedEvent 1 (0::nat) (Some ''P1'')] @ ScreenDisappearedEvent 2 (7::nat) # [])
       = Inl KeyError"
proof -
  have k: "(7::nat) \<notin> fst ` set (detected_page_dict
       \<lparr>peeked_remaining_annotated_frames = [frame1],
           remaining_annotated_frames = [frame2],
           num_successes = 0,
           detected_page_dict = [(0::nat, Some ''P1'')],
           history = [Applied (Some (ScreenAppearedEvent 1 0 (Some ''P1''))) [(0, Some ''P1'')]]\<rparr>)"
    by simp
  have "evaluate_event_detector example_video
         ([ScreenAppearedEvent 1 (0::nat) (Some ''P1'')] @ ScreenDisappearedEvent 2 (7::nat) # [])
       = Inl KeyError"
    using untracked_disappearance_raises[OF example_prefix k, of 2 "[]"] by (rule conjunct2)
  moreover have "(7::nat) \<notin> fst ` set [(0::nat, Some ''P1'')]" by simp
  ultimately show ?thesis using example_prefix by (intro conjI)
qed

text \<open>
  Claim C4 as stated fails: a \<^verbatim>\<open>None\<close> stored by an appearance event is a member of the
  detected pages. On a frame without screens the trial with the belief state
  \<open>[(0, None)]\<close> fails, where the empty belief state succeeds, and the run over one such
  frame counts no success.
\<close>

theorem null_page_counterexample:
  "detected_pages_of [(0::nat, None::string option)] \<noteq> nonnull_pages_of [(0::nat, None)]
   \<and> trial example_pages [(0::nat, None)] frame2 = Inr False
   \<and> trial example_pages ([]::(nat, string) page_dict) frame2 = Inr True
   \<and> evaluate_event_detector null_video null_events = Inr (0, 1)"
  by (simp add: detected_pages_of_def nonnull_pages_of_def example_trial_null example_trial2
      null_evaluate)

text \<open>
  Claim C4, amended. At every trial of a run that returns, the outcome is the success
  condition evaluated on the set of all values of the belief state as a map from screens:
  \<^verbatim>\<open>None\<close> is a detected page exactly when some screen is mapped to it, the other detected
  pages are the values that are not \<^verbatim>\<open>None\<close>, and a stored \<^verbatim>\<open>None\<close> adds one to the number
  of detected pages outside any set of pages, so it counts as one page that no pristine
  screen matches.
\<close>

theorem detected_pages_are_dict_values:
  assumes "run v es = Inr st" and "Trial f d b n \<in> set (history st)"
  shows "(b \<longleftrightarrow> succeeds_with (ran (map_of d)) (pages v) f)
    \<and> (None \<in> ran (map_of d) \<longleftrightarrow> (\<exists>sid. map_of d sid = Some None))
    \<and> ran (map_of d) - {None} = nonnull_pages_of d
    \<and> (\<forall>M. None \<in> ran (map_of d) \<longrightarrow>
          card (ran (map_of d) - Some ` M) = Suc (card (nonnull_pages_of d - Some ` M)))"
proof -
  from run_trials[OF assms] have t: "trial (pages v) d f = Inr b"
    and dist: "distinct (map fst d)" by simp_all
  from dist have r: "ran (map_of d) = snd ` set d"
    by (rule ran_distinct)
  have dp: "detected_pages_of d = ran (map_of d)"
    unfolding r by (simp add: detected_pages_of_def)
  from t obtain every pm where
    sl: "screens_loop (pages v) (detected_pages_of d) (pristine_screen_detector f) (True, {})
           = Inr (every, pm)"
    and b: "b \<longleftrightarrow> every
              \<and> card (detected_pages_of d - pm) \<le> length (nonpristine_screen_detector f)"
    by (auto simp: trial_def Let_def split: sum.splits)
  from screens_outcome[OF sl] b
  have "b \<longleftrightarrow> succeeds_with (detected_pages_of d) (pages v) f" by simp
  then have 1: "b \<longleftrightarrow> succeeds_with (ran (map_of d)) (pages v) f"
    by (simp only: dp)
  have 2: "None \<in> ran (map_of d) \<longleftrightarrow> (\<exists>sid. map_of d sid = Some None)"
    by (auto simp: ran_def)
  have 3: "ran (map_of d) - {None} = nonnull_pages_of d"
    unfolding r by (simp add: nonnull_pages_of_eq)
  have fin: "finite (ran (map_of d))" unfolding r by simp
  have 4: "\<forall>M. None \<in> ran (map_of d) \<longrightarrow>
          card (ran (map_of d) - Some ` M) = Suc (card (nonnull_pages_of d - Some ` M))"
    unfolding 3[symmetric] using card_with_null[OF fin] by blast
  from 1 2 3 4 show ?thesis by (intro conjI)
qed

theorem detected_pages_are_dict_values_witness:
  "run null_video null_events = Inr null_final
   \<and> Trial frame2 [(0, None)] False 0 \<in> set (history null_final)
   \<and> \<not> succeeds_with (ran (map_of [(0::nat, None::string option)])) (pages null_video) frame2
   \<and> map_of [(0::nat, None::string option)] 0 = Some None
   \<and> None \<in> ran (map_of [(0::nat, None::string option)])"
proof -
  have h: "Trial frame2 [(0, None)] False 0 \<in> set (history null_final)"
    by (simp add: null_final_def)
  note c4 = detected_pages_are_dict_values[OF null_run h]
  from conjunct1[OF c4]
  have a: "\<not> succeeds_with (ran (map_of [(0::nat, None::string option)])) (pages null_video) frame2"
    by simp
  have m: "map_of [(0::nat, None::string option)] 0 = Some None" by simp
  from conjunct1[OF conjunct2[OF c4]] m
  have r: "None \<in> ran (map_of [(0::nat, None::string option)])" by blast
  from null_run h a m r show ?thesis by (intro conjI)
qed

text \<open>
  Claim C5. Whatever \<^verbatim>\<open>evaluate_event_detector\<close> returns, the number of trials is the
  number of frames of the video, for every event stream; and it does return when the key
  references of the pristine screens resolve and every disappearance names a tracked screen.
\<close>

theorem num_trials_is_number_of_frames:
  fixes v :: "('p, 'z) AnnotatedSampledVideo_scheme" and es :: "('i, 'p) event list"
  shows "(\<forall>ns nt. evaluate_event_detector v es = Inr (ns, nt) \<longrightarrow> nt = length (frames v))
    \<and> ((\<forall>f\<in>set (frames v). keyrefs_resolve (pages v) f) \<and> well_tracked {} es \<longrightarrow>
          (\<exists>ns. evaluate_event_detector v es = Inr (ns, length (frames v))))"
proof (intro conjI allI impI)
  fix ns nt assume "evaluate_event_detector v es = Inr (ns, nt)"
  then show "nt = length (frames v)"
    by (auto simp: evaluate_event_detector_def split: sum.splits)
next
  assume "(\<forall>f\<in>set (frames v). keyrefs_resolve (pages v) f) \<and> well_tracked {} es"
  then have "\<exists>st :: ('i, 'p) state. run v es = Inr st"
    using run_total by blast
  then obtain st :: "('i, 'p) state" where "run v es = Inr st" by blast
  then have "evaluate_event_detector v es = Inr (num_successes st, length (frames v))"
    by (simp add: evaluate_event_detector_def)
  then show "\<exists>ns. evaluate_event_detector v es = Inr (ns, length (frames v))" by blast
qed

theorem num_trials_is_number_of_frames_witness:
  "evaluate_event_detector example_video example_events = Inr (2, 2)
   \<and> keyrefs_resolve (pages example_video) frame1
   \<and> keyrefs_resolve (pages example_video) frame2
   \<and> well_tracked {} example_events
   \<and> length (frames example_video) = 2"
  using num_trials_is_number_of_frames[of example_video example_events]
    example_evaluate example_resolve example_tracked
  by (simp add: example_video_def)

text \<open>
  Claim C6. When \<^verbatim>\<open>matching_pages\<close> returns, the full matches are the pages of the keys with
  similarity \<^verbatim>\<open>full\<close>, the incremental matches those of the keys with similarity
  \<^verbatim>\<open>incremental\<close>, and the closest matches are the full matches when there is one and the
  incremental matches otherwise, never a mixture; it returns when every such key is in the
  page index.
\<close>

theorem closest_matches_fallback:
  "(\<forall>full inc closest. matching_pages pgs s = Inr (full, inc, closest) \<longrightarrow>
       full = map (\<lambda>k. the (pgs k)) (keys_with ''full'' s)
     \<and> inc = map (\<lambda>k. the (pgs k)) (keys_with ''incremental'' s)
     \<and> (full \<noteq> [] \<longrightarrow> closest = full)
     \<and> (full = [] \<longrightarrow> closest = inc))
   \<and> (set (keys_with ''full'' s) \<union> set (keys_with ''incremental'' s) \<subseteq> dom pgs \<longrightarrow>
        (\<exists>full inc closest. matching_pages pgs s = Inr (full, inc, closest)))"
proof (cases "set (keys_with ''full'' s) \<union> set (keys_with ''incremental'' s) \<subseteq> dom pgs")
  case True
  then have "matching_pages pgs s =
      Inr (map (\<lambda>k. the (pgs k)) (keys_with ''full'' s),
           map (\<lambda>k. the (pgs k)) (keys_with ''incremental'' s),
           if keys_with ''full'' s \<noteq> [] then map (\<lambda>k. the (pgs k)) (keys_with ''full'' s)
           else map (\<lambda>k. the (pgs k)) (keys_with ''incremental'' s))"
    by (simp add: matching_pages_eq)
  then show ?thesis by simp
next
  case False
  then have "matching_pages pgs s = Inl KeyError"
    by (simp add: matching_pages_eq)
  with False show ?thesis by simp
qed

theorem closest_matches_fallback_witness:
  "matching_pages example_pages example_screen = Inr ([''P1''], [''P2''], [''P1''])
   \<and> keys_with ''full'' example_screen = [''k1'']
   \<and> keys_with ''incremental'' example_screen = [''k2'']
   \<and> dom example_pages = {''k1'', ''k2''}"
  using closest_matches_fallback[of example_pages example_screen] example_matching
  by (auto simp: keys_with_def example_screen_def example_pages_def)

text \<open>
  Claim C7. In a run that returns, the frames that are trialed are the frames of the video, each
  once and in order; and the history ends with the pass of the final \<^verbatim>\<open>None\<close> element, which
  trials every frame that the event stream left untrialed, each with the belief state in
  which the event stream ended.
\<close>

theorem every_frame_trialed_once:
  assumes "run v es = Inr st"
  shows "trialed_frames (history st) = frames v
    \<and> (\<exists>st1 fin.
          events_loop (pages v) (length (frames v)) (map Some es) (initial_state v) = Inr st1
        \<and> history st = history st1 @ fin @ [Applied None (detected_page_dict st1)]
        \<and> trialed_frames fin
            = peeked_remaining_annotated_frames st1 @ remaining_annotated_frames st1
        \<and> (\<forall>s\<in>set fin. \<exists>f b n. s = Trial f (detected_page_dict st1) b n)
        \<and> detected_page_dict st = detected_page_dict st1)"
proof -
  from run_split[OF assms] obtain st1 where
    e1: "events_loop (pages v) (length (frames v)) (map Some es) (initial_state v) = Inr st1"
    and e2: "events_loop (pages v) (length (frames v)) [None] st1 = Inr st" by blast
  from final_pass[OF e2] obtain fin where
    "history st = history st1 @ fin @ [Applied None (detected_page_dict st1)]"
    "trialed_frames fin
         = peeked_remaining_annotated_frames st1 @ remaining_annotated_frames st1"
    "\<forall>s\<in>set fin. \<exists>f b n. s = Trial f (detected_page_dict st1) b n"
    "detected_page_dict st = detected_page_dict st1"
    by blast
  with e1 run_frames[OF assms] show ?thesis by blast
qed

theorem every_frame_trialed_once_witness:
  "run example_video example_events = Inr example_final
   \<and> trialed_frames (history example_final) = [frame1, frame2]"
  using every_frame_trialed_once[OF example_run] example_run
  by (simp add: example_video_def)

text \<open>
  Claim C9. The assertion \<^verbatim>\<open>num_successes <= num_trials\<close> of line 975 never fails, in any
  run; in a run that returns the success counter read after each trial never decreases and
  stays at most its final value, which is at most the number of trials. The number of trials
  is the constant \<^verbatim>\<open>len(annotated_video)\<close>.
\<close>

theorem successes_bounded_and_monotone:
  fixes v :: "('p, 'z) AnnotatedSampledVideo_scheme" and es :: "('i, 'p) event list"
  shows "evaluate_event_detector v es \<noteq> Inl AssertionError
    \<and> (\<forall>st :: ('i, 'p) state. run v es = Inr st \<longrightarrow>
          sorted (successes_after (history st))
        \<and> (\<forall>n\<in>set (successes_after (history st)). n \<le> num_successes st)
        \<and> num_successes st \<le> length (frames v))"
proof (intro conjI allI impI)
  show "evaluate_event_detector v es \<noteq> Inl AssertionError"
    using run_not_assertion[of v es]
    by (auto simp: evaluate_event_detector_def split: sum.splits)
next
  fix st :: "('i, 'p) state" assume r: "run v es = Inr st"
  let ?init = "initial_state v :: ('i, 'p) state"
  have "sorted (successes_after (history ?init) @ [num_successes ?init])"
    unfolding initial_state_sel by simp
  from events_loop_sorted[OF run_events_loop[OF r] this]
  have s: "sorted (successes_after (history st) @ [num_successes st])" .
  then show "sorted (successes_after (history st))"
    by (simp add: sorted_append)
  from s show "\<forall>n\<in>set (successes_after (history st)). n \<le> num_successes st"
    by (simp add: sorted_append)
  from events_loop_counts[OF run_events_loop[OF r]]
  show "num_successes st \<le> length (frames v)"
    unfolding initial_state_sel by simp
qed

theorem successes_bounded_and_monotone_witness:
  "run example_video example_events = Inr example_final
   \<and> evaluate_event_detector example_video example_events \<noteq> Inl AssertionError
   \<and> successes_after (history example_final) = [1, 2]
   \<and> sorted (successes_after (history example_final))
   \<and> num_successes example_final \<le> length (frames example_video)"
  using successes_bounded_and_monotone[of example_video example_events] example_run
  by (simp add: example_final_def)

text \<open>
  Claim C10. The update of an event leaves the entry of every other screen identifier as it was,
  the final \<^verbatim>\<open>None\<close> element changes nothing, and the trials between two updates do not
  change the belief state.
\<close>

theorem update_touches_only_event_screen:
  "(\<forall>e d'. apply_event (Some e) d = Inr d' \<longrightarrow>
       (\<forall>sid. sid \<noteq> screen_id e \<longrightarrow> map_of d' sid = map_of d sid))
   \<and> apply_event None d = Inr d
   \<and> (\<forall>st'. frames_loop pgs nt ev chain st = Inr st' \<longrightarrow>
         detected_page_dict st' = detected_page_dict st)"
proof (intro conjI allI impI)
  fix e d' sid
  assume "apply_event (Some e) d = Inr d'" "sid \<noteq> screen_id e"
  then show "map_of d' sid = map_of d sid"
    by (cases e) (auto simp: update_conv' delete_conv' split: if_splits)
next
  show "apply_event None d = Inr d" by simp
next
  fix st' assume "frames_loop pgs nt ev chain st = Inr st'"
  then show "detected_page_dict st' = detected_page_dict st" by (rule frames_loop_dict)
qed

theorem update_touches_only_event_screen_witness:
  "apply_event (Some (ScreenChangedContentEvent 3 (0::nat) (Some ''P1'')))
     [(0, Some ''P2''), (1, None)] = Inr [(0, Some ''P1''), (1, None)]
   \<and> (1::nat) \<noteq> screen_id (ScreenChangedContentEvent 3 (0::nat) (Some ''P1''))
   \<and> map_of [(0::nat, Some ''P1''), (1, None)] (1::nat) = Some None
   \<and> map_of [(0::nat, Some ''P2''), (1, None)] (1::nat) = Some None"
proof -
  have a: "apply_event (Some (ScreenChangedContentEvent 3 (0::nat) (Some ''P1'')))
     [(0, Some ''P2''), (1, None)] = Inr [(0, Some ''P1''), (1, None)]"
    by simp
  have b: "(1::nat) \<noteq> screen_id (ScreenChangedContentEvent 3 (0::nat) (Some ''P1''))"
    by simp
  from update_touches_only_event_screen[of "[(0::nat, Some ''P2''), (1, None)]"] a b
  have "map_of [(0::nat, Some ''P1''), (1, None)] (1::nat)
        = map_of [(0::nat, Some ''P2''), (1, None)] (1::nat)"
    by blast
  with a b show ?thesis by simp
qed

end
